theory Spec2Isabelle
  imports Complex_Main
begin

section \<open>Request deduplication cache\<close>

text \<open>
  \<^verbatim>\<open>utils/api.ts\<close>, lines 42-70 and 161-164. The module state is the map
  \<open>requestCache\<close> from keys to promises. A promise is identified by its index in the list
  \<open>promises\<close>, which records for each promise created by \<open>cachedRequest\<close> the key and
  the \<open>cacheDuration\<close> captured by its \<open>finally\<close> callback and whether it is still
  pending or how it settled. \<open>timers\<close> holds the callbacks armed by \<open>setTimeout\<close> and
  not yet run: the time at which each is due and the key it deletes. \<open>now\<close> is the clock
  in milliseconds, and \<open>invoked\<close> logs every invocation of a \<open>requestFn\<close>, with the key
  it was invoked for.

  An \<open>async\<close> function hands each caller a promise that adopts the promise it returns, so
  what a caller of \<open>cachedRequest\<close> receives is the settled outcome of the promise whose
  index the model returns. A \<open>requestFn\<close> returns a promise (every one in this module is a
  call of the HTTP client) and does not throw synchronously.
\<close>

datatype ('v, 'e) outcome = Fulfilled 'v | Rejected 'e

datatype ('v, 'e) promise_state = Pending | Settled "('v, 'e) outcome"

record 'v AxiosResponse =
  response_data :: 'v
  response_status :: nat

record ('k, 'v, 'e) entry =
  entry_key :: 'k
  entry_duration :: nat
  entry_state :: "('v, 'e) promise_state"

record ('k, 'f, 'v, 'e) cache =
  now :: nat
  requestCache :: "'k \<rightharpoonup> nat"
  promises :: "('k, 'v, 'e) entry list"
  timers :: "(nat \<times> 'k) list"
  invoked :: "('k \<times> 'f) list"

definition init :: "('k, 'f, 'v, 'e) cache" where
  "init = \<lparr>now = 0, requestCache = Map.empty, promises = [], timers = [], invoked = []\<rparr>"

text \<open>
  \<open>cachedRequest(key, requestFn, cacheDuration)\<close>: a key that is in the map returns the
  stored promise; otherwise \<open>requestFn\<close> is invoked, the promise chained on its result is
  stored under the key at once, and that promise is returned.
\<close>

definition cachedRequest ::
  "'k \<Rightarrow> 'f \<Rightarrow> nat \<Rightarrow> ('k, 'f, 'v, 'e) cache \<Rightarrow> nat \<times> ('k, 'f, 'v, 'e) cache" where
  "cachedRequest key requestFn cacheDuration s =
     (case requestCache s key of
        Some p \<Rightarrow> (p, s)
      | None \<Rightarrow>
          let requestPromise = length (promises s)
          in (requestPromise,
              s\<lparr>promises := promises s @
                   [\<lparr>entry_key = key, entry_duration = cacheDuration, entry_state = Pending\<rparr>],
                requestCache := (requestCache s)(key \<mapsto> requestPromise),
                invoked := invoked s @ [(key, requestFn)]\<rparr>))"

text \<open>\<open>.then((response) => response.data)\<close>: a rejection passes through unchanged.\<close>

definition then_data :: "('v AxiosResponse, 'e) outcome \<Rightarrow> ('v, 'e) outcome" where
  "then_data r =
     (case r of
        Fulfilled response \<Rightarrow> Fulfilled (response_data response)
      | Rejected e \<Rightarrow> Rejected e)"

text \<open>
  The request behind promise \<open>p\<close> settles with \<open>r\<close>: the \<open>finally\<close> callback arms the
  timer that deletes the key \<open>cacheDuration\<close> milliseconds later, and the promise settles
  with the mapped outcome. A promise settles once.
\<close>

definition settle ::
  "nat \<Rightarrow> ('v AxiosResponse, 'e) outcome \<Rightarrow> ('k, 'f, 'v, 'e) cache \<Rightarrow> ('k, 'f, 'v, 'e) cache" where
  "settle p r s =
     (if p < length (promises s) \<and> entry_state (promises s ! p) = Pending then
        let e = promises s ! p
        in s\<lparr>promises := (promises s)[p := e\<lparr>entry_state := Settled (then_data r)\<rparr>],
             timers := timers s @ [(now s + entry_duration e, entry_key e)]\<rparr>
      else s)"

text \<open>
  The clock moves on by \<open>dt\<close> milliseconds: every timer that is due by then runs
  \<open>requestCache.delete(key)\<close> and is gone.
\<close>

definition due :: "nat \<Rightarrow> nat \<times> 'k \<Rightarrow> bool" where
  "due t tm \<longleftrightarrow> fst tm \<le> t"

definition advance :: "nat \<Rightarrow> ('k, 'f, 'v, 'e) cache \<Rightarrow> ('k, 'f, 'v, 'e) cache" where
  "advance dt s =
     (let t = now s + dt
      in s\<lparr>now := t,
           requestCache := fold (\<lambda>tm m. m(snd tm := None)) (filter (due t) (timers s)) (requestCache s),
           timers := filter (\<lambda>tm. \<not> due t tm) (timers s)\<rparr>)"

definition clearApiCache :: "('k, 'f, 'v, 'e) cache \<Rightarrow> ('k, 'f, 'v, 'e) cache" where
  "clearApiCache s = s\<lparr>requestCache := Map.empty\<rparr>"

text \<open>What can happen to the cache, and a run of such events in the order they happen.\<close>

datatype ('k, 'f, 'v, 'e) event =
    Call 'k 'f nat
  | Settle nat "('v AxiosResponse, 'e) outcome"
  | Advance nat
  | ClearApiCache

fun step :: "('k, 'f, 'v, 'e) event \<Rightarrow> ('k, 'f, 'v, 'e) cache \<Rightarrow> ('k, 'f, 'v, 'e) cache" where
  "step (Call key requestFn cacheDuration) s = snd (cachedRequest key requestFn cacheDuration s)"
| "step (Settle p r) s = settle p r s"
| "step (Advance dt) s = advance dt s"
| "step ClearApiCache s = clearApiCache s"

fun run :: "('k, 'f, 'v, 'e) event list \<Rightarrow> ('k, 'f, 'v, 'e) cache \<Rightarrow> ('k, 'f, 'v, 'e) cache" where
  "run [] s = s"
| "run (e # es) s = run es (step e s)"

text \<open>The promises returned to the calls for \<open>key\<close> during a run, in call order.\<close>

fun call_results ::
  "'k \<Rightarrow> ('k, 'f, 'v, 'e) event list \<Rightarrow> ('k, 'f, 'v, 'e) cache \<Rightarrow> nat list" where
  "call_results key [] s = []"
| "call_results key (Call key' requestFn cacheDuration # es) s =
     (if key' = key
      then fst (cachedRequest key' requestFn cacheDuration s)
           # call_results key es (step (Call key' requestFn cacheDuration) s)
      else call_results key es (step (Call key' requestFn cacheDuration) s))"
| "call_results key (e # es) s = call_results key es (step e s)"

text \<open>The requests made for \<open>key\<close>, and the time that passes during a run.\<close>

definition invoked_for :: "'k \<Rightarrow> ('k, 'f, 'v, 'e) cache \<Rightarrow> 'f list" where
  "invoked_for key s = map snd (filter (\<lambda>c. fst c = key) (invoked s))"

fun elapsed :: "('k, 'f, 'v, 'e) event list \<Rightarrow> nat" where
  "elapsed [] = 0"
| "elapsed (Advance dt # es) = dt + elapsed es"
| "elapsed (e # es) = elapsed es"

text \<open>
  Events that leave promise \<open>p\<close> pending and do not clear the cache: calls for any key,
  other requests settling, time passing.
\<close>

fun keeps_pending :: "nat \<Rightarrow> ('k, 'f, 'v, 'e) event \<Rightarrow> bool" where
  "keeps_pending p (Settle q r) \<longleftrightarrow> q \<noteq> p"
| "keeps_pending p ClearApiCache \<longleftrightarrow> False"
| "keeps_pending p e \<longleftrightarrow> True"

fun no_clear :: "('k, 'f, 'v, 'e) event \<Rightarrow> bool" where
  "no_clear ClearApiCache \<longleftrightarrow> False"
| "no_clear e \<longleftrightarrow> True"

text \<open>
  A key is quiescent when no timer is armed for it and no request made for it is still
  pending. A key that is not in the map is quiescent in every state that arises without
  \<open>clearApiCache\<close> (lemma \<open>reachable_quiescent\<close> below); \<open>clearApiCache\<close> removes entries
  without disarming their timers.
\<close>

definition quiescent :: "('k, 'f, 'v, 'e) cache \<Rightarrow> 'k \<Rightarrow> bool" where
  "quiescent s key \<longleftrightarrow>
     list_all (\<lambda>tm. snd tm \<noteq> key) (timers s) \<and>
     list_all (\<lambda>e. entry_key e = key \<longrightarrow> entry_state e \<noteq> Pending) (promises s)"

text \<open>The entry of \<open>key\<close> is promise \<open>p\<close>, pending, and the key is otherwise quiescent.\<close>

definition pending_entry :: "'k \<Rightarrow> nat \<Rightarrow> ('k, 'f, 'v, 'e) cache \<Rightarrow> bool" where
  "pending_entry key p s \<longleftrightarrow>
     requestCache s key = Some p \<and> p < length (promises s) \<and>
     entry_key (promises s ! p) = key \<and> entry_state (promises s ! p) = Pending \<and>
     list_all (\<lambda>tm. snd tm \<noteq> key) (timers s) \<and>
     (\<forall>q < length (promises s). q \<noteq> p \<longrightarrow> entry_key (promises s ! q) = key \<longrightarrow>
        entry_state (promises s ! q) \<noteq> Pending)"

text \<open>
  The entry of \<open>key\<close> is promise \<open>p\<close>, settled, its own timer due at \<open>t\<close> is the only one
  armed for the key, and no other request for the key is pending.
\<close>

definition settled_entry :: "'k \<Rightarrow> nat \<Rightarrow> nat \<Rightarrow> ('k, 'f, 'v, 'e) cache \<Rightarrow> bool" where
  "settled_entry key p t s \<longleftrightarrow>
     requestCache s key = Some p \<and> p < length (promises s) \<and>
     entry_key (promises s ! p) = key \<and> entry_state (promises s ! p) \<noteq> Pending \<and>
     list_all (\<lambda>tm. snd tm = key \<longrightarrow> fst tm = t) (timers s) \<and>
     (\<forall>q < length (promises s). entry_key (promises s ! q) = key \<longrightarrow>
        entry_state (promises s ! q) \<noteq> Pending)"

text \<open>
  A run on one key: requested at time 0 with a \<open>cacheDuration\<close> of 5000, the response
  arrives at time 3000, and the clock then reaches 5001.
\<close>

definition late_call_trace :: "(string, nat, nat, string) event list" where
  "late_call_trace =
     [Call ''categories'' 11 5000, Advance 3000,
      Settle 0 (Fulfilled \<lparr>response_data = 7, response_status = 200\<rparr>), Advance 2001]"

text \<open>
  The invariant of the cache when \<open>clearApiCache\<close> is not used: every key is either absent
  and quiescent, or holds a pending entry, or holds a settled entry with its timer.
\<close>

definition cache_inv :: "('k, 'f, 'v, 'e) cache \<Rightarrow> bool" where
  "cache_inv s \<longleftrightarrow>
     (\<forall>key. (requestCache s key = None \<and> quiescent s key)
          \<or> (\<exists>p. pending_entry key p s)
          \<or> (\<exists>p t. settled_entry key p t s \<and> (t, key) \<in> set (timers s)))"

text \<open>
  A run with \<open>clearApiCache\<close>: the first entry of the key settles at time 100 and the
  cache is cleared at 200. The key is requested again at 300; at 5100 the timer of the first
  entry runs while the second request is still pending, and the key is requested a third
  time.
\<close>

definition stale_timer_prefix :: "(string, nat, nat, string) event list" where
  "stale_timer_prefix =
     [Call ''categories'' 11 5000, Advance 100,
      Settle 0 (Fulfilled \<lparr>response_data = 7, response_status = 200\<rparr>), Advance 100,
      ClearApiCache, Advance 100]"

definition stale_timer_window :: "(string, nat, nat, string) event list" where
  "stale_timer_window = [Advance 4800, Call ''categories'' 13 5000]"

text \<open>
  Another run with \<open>clearApiCache\<close>: the first entry settles at time 0 and the cache is
  cleared. The key is requested again at 100 and that request is rejected at 4000; at 5000
  the timer of the first entry runs.
\<close>

definition stale_settled_trace :: "(string, nat, nat, string) event list" where
  "stale_settled_trace =
     [Call ''categories'' 11 5000,
      Settle 0 (Fulfilled \<lparr>response_data = 7, response_status = 200\<rparr>),
      ClearApiCache, Advance 100, Call ''categories'' 12 5000, Advance 3900,
      Settle 1 (Rejected ''boom''), Advance 1000]"

text \<open>
  A run on one key: requested at time 0 with a \<open>cacheDuration\<close> of 5000, the request is
  rejected at time 3000, and the clock then reaches 5001.
\<close>

definition late_rejection_trace :: "(string, nat, nat, string) event list" where
  "late_rejection_trace =
     [Call ''categories'' 11 5000, Advance 3000, Settle 0 (Rejected ''boom''), Advance 2001]"

section \<open>Cache keys and the API functions\<close>

text \<open>
  \<^verbatim>\<open>utils/api.ts\<close>, lines 73-125. A JavaScript string is a \<open>string\<close> whose characters are
  the code points U+0000 to U+00FF; a number is an integer (\<open>page\<close> and \<open>limit\<close> are
  naturals), printed in decimal by \<open>toString\<close>. Non-integer numbers and characters beyond
  U+00FF are outside the model.
\<close>

definition digit :: "nat \<Rightarrow> char" where
  "digit n = ''0123456789'' ! n"

fun toString_nat :: "nat \<Rightarrow> string" where
  "toString_nat n = (if n < 10 then [digit n] else toString_nat (n div 10) @ [digit (n mod 10)])"

declare toString_nat.simps [simp del]

definition toString_int :: "int \<Rightarrow> string" where
  "toString_int i = (if i < 0 then CHR ''-'' # toString_nat (nat (- i)) else toString_nat (nat i))"

text \<open>
  \<open>String.prototype.trim\<close> strips white space and line terminators from both ends; up to
  U+00FF these are TAB, LF, VT, FF, CR, SP and NBSP.
\<close>

definition isWhiteSpace :: "char \<Rightarrow> bool" where
  "isWhiteSpace c \<longleftrightarrow> (of_char c :: nat) \<in> {9, 10, 11, 12, 13, 32, 160}"

definition trim :: "string \<Rightarrow> string" where
  "trim s = rev (dropWhile isWhiteSpace (rev (dropWhile isWhiteSpace s)))"

text \<open>
  Percent-encoding of the UTF-8 bytes of a character, as both \<open>encodeURIComponent\<close> and
  the serializer of \<open>URLSearchParams\<close> (\<open>application/x-www-form-urlencoded\<close>) do it.
\<close>

definition hex2 :: "nat \<Rightarrow> string" where
  "hex2 b = [''0123456789ABCDEF'' ! (b div 16), ''0123456789ABCDEF'' ! (b mod 16)]"

definition utf8 :: "char \<Rightarrow> nat list" where
  "utf8 c = (let n = of_char c in if n < 128 then [n] else [192 + n div 64, 128 + n mod 64])"

definition percent :: "char \<Rightarrow> string" where
  "percent c = concat (map (\<lambda>b. CHR ''%'' # hex2 b) (utf8 c))"

definition alphanumeric :: string where
  "alphanumeric = ''ABCDEFGHIJKLMNOPQRSTUVWXYZabcdefghijklmnopqrstuvwxyz0123456789''"

definition encodeURIComponent :: "string \<Rightarrow> string" where
  "encodeURIComponent s =
     concat (map (\<lambda>c. if c \<in> set (alphanumeric @ ''-_.!~*'' @ [CHR 0x27] @ ''()'') then [c]
                       else percent c) s)"

definition form_urlencode :: "string \<Rightarrow> string" where
  "form_urlencode s =
     concat (map (\<lambda>c. if c = CHR '' '' then ''+''
                       else if c \<in> set (alphanumeric @ ''*-._'') then [c]
                       else percent c) s)"

text \<open>
  An object is the list of its own string-keyed properties in insertion order (none of
  the keys used here is an array index). Assigning to a property that exists keeps its
  place; a new property goes to the end. Spreading assigns the source's properties in
  their order.
\<close>

fun obj_set :: "string \<Rightarrow> 'v \<Rightarrow> (string \<times> 'v) list \<Rightarrow> (string \<times> 'v) list" where
  "obj_set k v [] = [(k, v)]"
| "obj_set k v ((k', v') # ob) = (if k' = k then (k, v) # ob else (k', v') # obj_set k v ob)"

definition spread :: "(string \<times> 'v) list \<Rightarrow> (string \<times> 'v) list \<Rightarrow> (string \<times> 'v) list" where
  "spread source target = fold (\<lambda>kv ob. obj_set (fst kv) (snd kv) ob) source target"

text \<open>\<open>URLSearchParams\<close> built from a record, and its \<open>toString\<close>.\<close>

fun join :: "string \<Rightarrow> string list \<Rightarrow> string" where
  "join sep [] = []"
| "join sep [x] = x"
| "join sep (x # y # xs) = x @ sep @ join sep (y # xs)"

definition URLSearchParams_toString :: "(string \<times> string) list \<Rightarrow> string" where
  "URLSearchParams_toString params =
     join ''&'' (map (\<lambda>kv. form_urlencode (fst kv) @ ''='' @ form_urlencode (snd kv)) params)"

text \<open>The values a property of \<open>ProductFilters\<close> can hold, and their \<open>toString\<close>.\<close>

datatype jsvalue = JString string | JNumber int | JBoolean bool | JUndefined | JNull

fun toString :: "jsvalue \<Rightarrow> string" where
  "toString (JString s) = s"
| "toString (JNumber i) = toString_int i"
| "toString (JBoolean b) = (if b then ''true'' else ''false'')"
| "toString JUndefined = ''undefined''"
| "toString JNull = ''null''"

text \<open>The request a \<open>requestFn\<close> of this module makes when invoked.\<close>

datatype request = GET string

text \<open>
  \<open>productApi.getProducts(filters, page, limit)\<close>: the reduce keeps the properties of
  \<open>filters\<close> that are neither \<open>undefined\<close> nor \<open>null\<close>, as strings, in the order of
  \<open>Object.entries\<close>; they are spread after \<open>page\<close> and \<open>limit\<close>.
\<close>

definition getProducts_acc :: "(string \<times> jsvalue) list \<Rightarrow> (string \<times> string) list" where
  "getProducts_acc filters =
     fold (\<lambda>kv acc. if snd kv \<noteq> JUndefined \<and> snd kv \<noteq> JNull
                     then obj_set (fst kv) (toString (snd kv)) acc else acc)
       filters []"

definition getProducts_params ::
  "(string \<times> jsvalue) list \<Rightarrow> nat \<Rightarrow> nat \<Rightarrow> (string \<times> string) list" where
  "getProducts_params filters page limit =
     spread (getProducts_acc filters)
       [(''page'', toString_nat page), (''limit'', toString_nat limit)]"

definition getProducts_cacheKey :: "(string \<times> jsvalue) list \<Rightarrow> nat \<Rightarrow> nat \<Rightarrow> string" where
  "getProducts_cacheKey filters page limit =
     ''products-'' @ URLSearchParams_toString (getProducts_params filters page limit)"

definition getProducts ::
  "(string \<times> jsvalue) list \<Rightarrow> nat \<Rightarrow> nat \<Rightarrow> (string, request, 'v, 'e) cache
     \<Rightarrow> nat \<times> (string, request, 'v, 'e) cache" where
  "getProducts filters page limit s =
     cachedRequest (getProducts_cacheKey filters page limit)
       (GET (''/products?'' @ URLSearchParams_toString (getProducts_params filters page limit)))
       5000 s"

text \<open>
  \<open>productApi.searchProducts(query, limit)\<close> returns either a promise that is already
  fulfilled with a value, or the promise of \<open>cachedRequest\<close>.
\<close>

datatype 'a returned = Resolved 'a | Promise nat

definition searchProducts ::
  "string \<Rightarrow> nat \<Rightarrow> (string, request, 'v, 'e) cache
     \<Rightarrow> 'a list returned \<times> (string, request, 'v, 'e) cache" where
  "searchProducts query limit s =
     (if trim query = [] then (Resolved [], s)
      else
        let cacheKey = ''search-'' @ query @ ''-'' @ toString_nat limit;
            res = cachedRequest cacheKey
                    (GET (''/products/search?q='' @ encodeURIComponent query
                          @ ''&limit='' @ toString_nat limit))
                    2000 s
        in (Promise (fst res), snd res))"

text \<open>The same two filters, set in either order.\<close>

definition sort_then_order :: "(string \<times> jsvalue) list" where
  "sort_then_order = [(''sortBy'', JString ''name''), (''sortOrder'', JString ''asc'')]"

definition order_then_sort :: "(string \<times> jsvalue) list" where
  "order_then_sort = [(''sortOrder'', JString ''asc''), (''sortBy'', JString ''name'')]"

text \<open>A property of a filter object that the reduce keeps.\<close>

definition defined_entry :: "string \<times> jsvalue \<Rightarrow> bool" where
  "defined_entry kv \<longleftrightarrow> snd kv \<noteq> JUndefined \<and> snd kv \<noteq> JNull"

text \<open>A kept property as it appears in the serialized parameters.\<close>

definition encode_entry :: "string \<times> jsvalue \<Rightarrow> string" where
  "encode_entry kv = form_urlencode (fst kv) @ ''='' @ form_urlencode (toString (snd kv))"

section \<open>Debounced value\<close>

text \<open>
  \<^verbatim>\<open>hooks/useDebounce.ts\<close>. The state of one mounted hook: the clock in milliseconds, the
  state variable \<open>debouncedValue\<close>, the dependencies \<open>[value, delay]\<close> of the effect that
  ran last, the handle that the cleanup of that effect will clear, the timeouts that are
  armed (handle, time due, value captured by the callback), the next free handle, and the
  log of the calls of \<open>setDebouncedValue\<close> with the time of each.
\<close>

record 'a debounce =
  clock :: nat
  debouncedValue :: 'a
  deps :: "'a \<times> nat"
  handler :: "nat option"
  timeouts :: "(nat \<times> nat \<times> 'a) list"
  next_handle :: nat
  emitted :: "(nat \<times> 'a) list"

text \<open>\<open>setTimeout(() => setDebouncedValue(value), delay)\<close> and \<open>clearTimeout(handler)\<close>.\<close>

definition setTimeout :: "'a \<Rightarrow> nat \<Rightarrow> 'a debounce \<Rightarrow> 'a debounce" where
  "setTimeout v delay s =
     s\<lparr>handler := Some (next_handle s),
       timeouts := timeouts s @ [(next_handle s, clock s + delay, v)],
       next_handle := next_handle s + 1\<rparr>"

definition clearTimeout :: "nat option \<Rightarrow> 'a debounce \<Rightarrow> 'a debounce" where
  "clearTimeout h s = s\<lparr>timeouts := filter (\<lambda>tm. Some (fst tm) \<noteq> h) (timeouts s)\<rparr>"

text \<open>
  The first render at time \<open>t\<close>: \<open>useState(value)\<close> and the first run of the effect.
\<close>

definition mount :: "nat \<Rightarrow> 'a \<Rightarrow> nat \<Rightarrow> 'a debounce" where
  "mount t v delay =
     setTimeout v delay
       \<lparr>clock = t, debouncedValue = v, deps = (v, delay), handler = None, timeouts = [],
        next_handle = 0, emitted = []\<rparr>"

text \<open>
  A later render with \<open>value\<close> and \<open>delay\<close>: when a dependency changed, the cleanup of the
  previous effect runs and then the effect; otherwise nothing happens.
\<close>

definition useDebounce :: "'a \<Rightarrow> nat \<Rightarrow> 'a debounce \<Rightarrow> 'a debounce" where
  "useDebounce v delay s =
     (if (v, delay) = deps s then s
      else setTimeout v delay ((clearTimeout (handler s) s)\<lparr>deps := (v, delay)\<rparr>))"

text \<open>Unmounting runs the cleanup of the last effect.\<close>

definition unmount :: "'a debounce \<Rightarrow> 'a debounce" where
  "unmount s = clearTimeout (handler s) s"

text \<open>
  Time passes: the timeouts due by the new time run in the order of their due times, each
  calling \<open>setDebouncedValue\<close> with its value at its due time.
\<close>

definition fire :: "nat \<times> nat \<times> 'a \<Rightarrow> 'a debounce \<Rightarrow> 'a debounce" where
  "fire tm s =
     s\<lparr>debouncedValue := snd (snd tm), emitted := emitted s @ [(fst (snd tm), snd (snd tm))]\<rparr>"

definition wait :: "nat \<Rightarrow> 'a debounce \<Rightarrow> 'a debounce" where
  "wait dt s =
     (let t = clock s + dt;
          ready = sort_key (\<lambda>tm. fst (snd tm)) (filter (\<lambda>tm. fst (snd tm) \<le> t) (timeouts s))
      in fold fire ready
           (s\<lparr>clock := t, timeouts := filter (\<lambda>tm. \<not> fst (snd tm) \<le> t) (timeouts s)\<rparr>))"

text \<open>The raw value changes to \<open>v\<close> (with the delay unchanged), or time passes.\<close>

datatype 'a input = Raw 'a | Wait nat

fun input_step :: "'a input \<Rightarrow> 'a debounce \<Rightarrow> 'a debounce" where
  "input_step (Raw v) s = useDebounce v (snd (deps s)) s"
| "input_step (Wait dt) s = wait dt s"

fun inputs :: "'a input list \<Rightarrow> 'a debounce \<Rightarrow> 'a debounce" where
  "inputs [] s = s"
| "inputs (i # is) s = inputs is (input_step i s)"

section \<open>Virtualized product list: row arithmetic\<close>

text \<open>
  \<^verbatim>\<open>VirtualizedProductList.tsx\<close>, lines 34-50 and 87-129. Array lengths, indices and the
  window width are natural numbers; \<open>window.innerWidth\<close> is \<open>None\<close> when \<open>window\<close> is
  undefined. \<open>Math.ceil(a / b)\<close> is the ceiling of the real quotient.
\<close>

definition itemsPerRow :: "nat option \<Rightarrow> nat" where
  "itemsPerRow innerWidth =
     (case innerWidth of
        None \<Rightarrow> 4
      | Some width \<Rightarrow>
          if width < 768 then 1
          else if width < 1024 then 2
          else if width < 1280 then 3
          else 4)"

definition rowCount :: "'a list \<Rightarrow> nat \<Rightarrow> nat" where
  "rowCount products ipr = nat \<lceil>real (length products) / real ipr\<rceil>"

definition itemCount :: "'a list \<Rightarrow> nat \<Rightarrow> bool \<Rightarrow> nat" where
  "itemCount products ipr hasNextPage =
     (if hasNextPage then rowCount products ipr + 1 else rowCount products ipr)"

definition isItemLoaded :: "'a list \<Rightarrow> nat \<Rightarrow> nat \<Rightarrow> bool" where
  "isItemLoaded products ipr index \<longleftrightarrow> index < rowCount products ipr"

text \<open>\<open>Array.prototype.slice(start, end)\<close> for \<open>0 \<le> start\<close> and \<open>0 \<le> end \<le> length\<close>.\<close>

definition slice :: "nat \<Rightarrow> nat \<Rightarrow> 'a list \<Rightarrow> 'a list" where
  "slice startIndex endIndex xs = take (endIndex - startIndex) (drop startIndex xs)"

text \<open>
  What a row renders: a loading row with \<open>itemsPerRow\<close> skeleton cards, or a product row
  with its product cards followed by a number of hidden filler cells.
\<close>

datatype 'a row = LoadingRow nat | ProductRow "'a list" nat

definition VirtualizedRow :: "nat \<Rightarrow> 'a list \<Rightarrow> nat \<Rightarrow> 'a row" where
  "VirtualizedRow index products ipr =
     (let startIndex = index * ipr;
          endIndex = min (startIndex + ipr) (length products);
          rowProducts = slice startIndex endIndex products
      in if startIndex \<ge> length products then LoadingRow ipr
         else ProductRow rowProducts (ipr - length rowProducts))"

section \<open>Products page: infinite query and next-page loading\<close>

text \<open>
  \<^verbatim>\<open>pages/ProductsPage.tsx\<close>, lines 24-70 and 72-267, with \<open>PaginatedResponse\<close> from
  \<^verbatim>\<open>types\<close>. The page hands \<open>useInfiniteQuery\<close> the key \<open>['products', finalFilters]\<close>, the
  query function \<open>getProducts(finalFilters, pageParam, 20)\<close> with \<open>pageParam = 1\<close> by default,
  \<open>getNextPageParam\<close>, and \<open>keepPreviousData: true\<close>. The infinite query itself belongs to
  the react-query library; it is modelled by what the page relies on: one query per key
  with its fetched pages, its status and the fetch it has in flight; the result for the
  current key; and, under \<open>keepPreviousData\<close>, the data of the last successful result,
  which stands in while the query of a new key has no data of its own. When the key
  changes, the library cancels the fetch that the query being left has in flight and
  restores that query to its state before the fetch; the call of the query function is not
  aborted (\<open>getProducts\<close> passes no signal on), so it stays in flight until it settles and
  its result is then dropped. Refetching of stale data and retries are not modelled. The
  values that \<open>loadNextPage\<close> reads are those of the current result.
\<close>

record 'a PaginatedResponse =
  data :: "'a list"
  total :: nat
  page :: nat
  limit :: nat
  hasNextPage :: bool
  hasPreviousPage :: bool

datatype query_status = QIdle | QLoading | QSuccess | QError

datatype fetch_kind = Initial | Forward

text \<open>
  A query: its pages, its status, the fetch it has in flight, and the status to restore
  when that fetch is cancelled.
\<close>

record 'a query =
  pages :: "'a PaginatedResponse list option"
  status :: query_status
  fetching :: "fetch_kind option"
  reverted :: query_status

record ('f, 'a) products_page =
  finalFilters :: 'f
  queries :: "'f \<Rightarrow> 'a query"
  previous :: "'a PaginatedResponse list option"
  requests :: "('f \<times> nat) list"
  in_flight :: "('f \<times> fetch_kind) list"

text \<open>The options the page passes.\<close>

definition keepPreviousData :: bool where
  "keepPreviousData = True"

definition getNextPageParam :: "'a PaginatedResponse \<Rightarrow> nat option" where
  "getNextPageParam lastPage = (if hasNextPage lastPage then Some (page lastPage + 1) else None)"

text \<open>What \<open>useInfiniteQuery\<close> returns for the current key.\<close>

definition current :: "('f, 'a) products_page \<Rightarrow> 'a query" where
  "current s = queries s (finalFilters s)"

definition isError :: "('f, 'a) products_page \<Rightarrow> bool" where
  "isError s \<longleftrightarrow> status (current s) = QError"

definition query_data :: "('f, 'a) products_page \<Rightarrow> 'a PaginatedResponse list option" where
  "query_data s =
     (case pages (current s) of
        Some ps \<Rightarrow> Some ps
      | None \<Rightarrow> if keepPreviousData \<and> status (current s) \<noteq> QError then previous s else None)"

definition isLoading :: "('f, 'a) products_page \<Rightarrow> bool" where
  "isLoading s \<longleftrightarrow> status (current s) = QLoading \<and> query_data s = None"

definition query_hasNextPage :: "('f, 'a) products_page \<Rightarrow> bool" where
  "query_hasNextPage s =
     (case pages (current s) of
        Some ps \<Rightarrow> ps \<noteq> [] \<and> getNextPageParam (last ps) \<noteq> None
      | None \<Rightarrow> False)"

definition isFetchingNextPage :: "('f, 'a) products_page \<Rightarrow> bool" where
  "isFetchingNextPage s \<longleftrightarrow> fetching (current s) = Some Forward"

text \<open>\<open>data?.pages.flatMap(page => page.data) ?? []\<close>\<close>

definition products :: "('f, 'a) products_page \<Rightarrow> 'a list" where
  "products s = (case query_data s of Some ps \<Rightarrow> concat (map data ps) | None \<Rightarrow> [])"

text \<open>What the page renders below the filters.\<close>

datatype 'a view =
    ErrorState
  | Spinner
  | ProductList "'a list" bool bool
  | NoProducts

definition render :: "('f, 'a) products_page \<Rightarrow> 'a view" where
  "render s =
     (if isError s then ErrorState
      else if isLoading s then Spinner
      else if length (products s) > 0
        then ProductList (products s) (query_hasNextPage s) (isFetchingNextPage s)
      else NoProducts)"

text \<open>
  The library starts a fetch of a query: the first page with the default \<open>pageParam\<close>, or
  the next page with the parameter that \<open>getNextPageParam\<close> gives for the last page. Each
  fetch calls the query function once; the call is logged in \<open>requests\<close> and stays in
  \<open>in_flight\<close> until it settles.
\<close>

definition fetchFirstPage :: "'f \<Rightarrow> ('f, 'a) products_page \<Rightarrow> ('f, 'a) products_page" where
  "fetchFirstPage f s =
     s\<lparr>queries := (queries s)(f := (queries s f)
              \<lparr>status := QLoading, fetching := Some Initial, reverted := status (queries s f)\<rparr>),
       requests := requests s @ [(f, 1)],
       in_flight := in_flight s @ [(f, Initial)]\<rparr>"

definition fetchNextPage :: "('f, 'a) products_page \<Rightarrow> ('f, 'a) products_page" where
  "fetchNextPage s =
     (case pages (current s) of
        None \<Rightarrow> s
      | Some ps \<Rightarrow>
          (case (if ps = [] then None else getNextPageParam (last ps)) of
             None \<Rightarrow> s
           | Some pageParam \<Rightarrow>
               s\<lparr>queries := (queries s)(finalFilters s := (current s)
                        \<lparr>fetching := Some Forward, reverted := status (current s)\<rparr>),
                 requests := requests s @ [(finalFilters s, pageParam)],
                 in_flight := in_flight s @ [(finalFilters s, Forward)]\<rparr>))"

text \<open>The callback of the page, lines 66-70.\<close>

definition loadNextPage :: "('f, 'a) products_page \<Rightarrow> ('f, 'a) products_page" where
  "loadNextPage s =
     (if query_hasNextPage s \<and> \<not> isFetchingNextPage s then fetchNextPage s else s)"

text \<open>The first render of the page with its initial filters.\<close>

definition mount_page :: "'f \<Rightarrow> ('f, 'a) products_page" where
  "mount_page f =
     fetchFirstPage f
       \<lparr>finalFilters = f,
        queries = (\<lambda>_. \<lparr>pages = None, status = QIdle, fetching = None, reverted = QIdle\<rparr>),
        previous = None, requests = [], in_flight = []\<rparr>"

text \<open>
  The library cancels the fetch of the query of key \<open>f\<close>: the query is as it was before the
  fetch started; the call of the query function stays in flight.
\<close>

definition cancelFetch :: "'f \<Rightarrow> ('f, 'a) products_page \<Rightarrow> ('f, 'a) products_page" where
  "cancelFetch f s =
     (case fetching (queries s f) of
        None \<Rightarrow> s
      | Some kind \<Rightarrow>
          s\<lparr>queries := (queries s)(f := (queries s f)
                 \<lparr>status := reverted (queries s f), fetching := None\<rparr>)\<rparr>)"

text \<open>
  \<open>finalFilters\<close> changes (a filter, the sort or the debounced search term): the result
  shown so far, unless it is an error, becomes the previous data, the fetch of the query
  being left is cancelled, and the query of the new key is fetched when it has no data and
  no fetch in flight.
\<close>

definition setQuery :: "'f \<Rightarrow> ('f, 'a) products_page \<Rightarrow> ('f, 'a) products_page" where
  "setQuery f s =
     (if f = finalFilters s then s
      else
        let s0 = cancelFetch (finalFilters s) s;
            s' = s0\<lparr>finalFilters := f, previous := (if isError s then None else query_data s)\<rparr>
        in if pages (queries s0 f) = None \<and> fetching (queries s0 f) = None
           then fetchFirstPage f s' else s')"

text \<open>
  The fetch that the query of key \<open>f\<close> has in flight is fulfilled with a page, or fails.
  A query whose fetch was cancelled has none, and nothing happens to it.
\<close>

definition resolve :: "'f \<Rightarrow> 'a PaginatedResponse \<Rightarrow> ('f, 'a) products_page \<Rightarrow> ('f, 'a) products_page" where
  "resolve f pg s =
     (case fetching (queries s f) of
        None \<Rightarrow> s
      | Some kind \<Rightarrow>
          s\<lparr>queries := (queries s)(f := (queries s f)
                 \<lparr>pages := Some ((case kind of
                                     Initial \<Rightarrow> []
                                   | Forward \<Rightarrow> (case pages (queries s f) of Some ps \<Rightarrow> ps | None \<Rightarrow> []))
                                  @ [pg]),
                  status := QSuccess, fetching := None\<rparr>),
            in_flight := remove1 (f, kind) (in_flight s)\<rparr>)"

definition reject :: "'f \<Rightarrow> ('f, 'a) products_page \<Rightarrow> ('f, 'a) products_page" where
  "reject f s =
     (case fetching (queries s f) of
        None \<Rightarrow> s
      | Some kind \<Rightarrow>
          s\<lparr>queries := (queries s)(f := (queries s f)\<lparr>status := QError, fetching := None\<rparr>),
            in_flight := remove1 (f, kind) (in_flight s)\<rparr>)"

text \<open>The next-page and first-page calls for key \<open>f\<close> that are in flight.\<close>

definition next_in_flight :: "'f \<Rightarrow> ('f, 'a) products_page \<Rightarrow> nat" where
  "next_in_flight f s = length (filter (\<lambda>r. r = (f, Forward)) (in_flight s))"

definition first_in_flight :: "'f \<Rightarrow> ('f, 'a) products_page \<Rightarrow> nat" where
  "first_in_flight f s = length (filter (\<lambda>r. r = (f, Initial)) (in_flight s))"

text \<open>
  A call whose fetch was cancelled settles: its result is dropped. There is such a call
  when more calls of that kind are in flight for the key than the one, if any, that the
  query still waits for.
\<close>

definition dropped :: "'f \<Rightarrow> fetch_kind \<Rightarrow> ('f, 'a) products_page \<Rightarrow> ('f, 'a) products_page" where
  "dropped f kind s =
     (if (if fetching (queries s f) = Some kind then 1 else 0)
           < length (filter (\<lambda>r. r = (f, kind)) (in_flight s))
      then s\<lparr>in_flight := remove1 (f, kind) (in_flight s)\<rparr> else s)"

datatype ('f, 'a) page_event =
    SetQuery 'f
  | Resolve 'f "'a PaginatedResponse"
  | Reject 'f
  | LoadNextPage
  | Dropped 'f fetch_kind

fun page_step :: "('f, 'a) page_event \<Rightarrow> ('f, 'a) products_page \<Rightarrow> ('f, 'a) products_page" where
  "page_step (SetQuery f) s = setQuery f s"
| "page_step (Resolve f pg) s = resolve f pg s"
| "page_step (Reject f) s = reject f s"
| "page_step LoadNextPage s = loadNextPage s"
| "page_step (Dropped f kind) s = dropped f kind s"

fun page_run :: "('f, 'a) page_event list \<Rightarrow> ('f, 'a) products_page \<Rightarrow> ('f, 'a) products_page" where
  "page_run [] s = s"
| "page_run (e # es) s = page_run es (page_step e s)"


text \<open>
  As long as the key has not changed: every fetch that a query records is in flight once,
  and no other call is; a first-page fetch is in flight only for a query without data.
\<close>

definition page_inv :: "('f, 'a) products_page \<Rightarrow> bool" where
  "page_inv s \<longleftrightarrow>
     (\<forall>f. next_in_flight f s = (if fetching (queries s f) = Some Forward then 1 else 0)
        \<and> first_in_flight f s = (if fetching (queries s f) = Some Initial then 1 else 0)
        \<and> (fetching (queries s f) = Some Initial \<longrightarrow> pages (queries s f) = None))"

text \<open>
  A page of two products with more to come, and the events: it arrives for the first
  query, then the query changes.
\<close>

definition first_page :: "nat PaginatedResponse" where
  "first_page =
     \<lparr>data = [101, 102], total = 40, page = 1, limit = 20, hasNextPage = True,
      hasPreviousPage = False\<rparr>"

definition query_change_trace :: "(string, nat) page_event list" where
  "query_change_trace = [Resolve ''name asc'' first_page, SetQuery ''price asc'']"


section \<open>Request deduplication cache: properties\<close>

lemma cachedRequest_hit:
  "requestCache s k = Some p \<Longrightarrow> cachedRequest k f d s = (p, s)"
  by (simp add: cachedRequest_def)

lemma cachedRequest_miss:
  "requestCache s k = None \<Longrightarrow>
     cachedRequest k f d s =
       (length (promises s),
        s\<lparr>promises := promises s @ [\<lparr>entry_key = k, entry_duration = d, entry_state = Pending\<rparr>],
          requestCache := (requestCache s)(k \<mapsto> length (promises s)),
          invoked := invoked s @ [(k, f)]\<rparr>)"
  by (simp add: cachedRequest_def Let_def)

lemma fold_delete:
  "fold (\<lambda>tm m. m(snd tm := None)) ts m k = (if k \<in> snd ` set ts then None else m k)"
  by (induction ts arbitrary: m) auto

lemma advance_fields [simp]:
  "now (advance dt s) = now s + dt"
  "promises (advance dt s) = promises s"
  "invoked (advance dt s) = invoked s"
  "timers (advance dt s) = filter (\<lambda>tm. \<not> fst tm \<le> now s + dt) (timers s)"
  by (simp_all add: advance_def Let_def due_def)

lemma advance_requestCache:
  "requestCache (advance dt s) k =
     (if \<exists>tm \<in> set (timers s). snd tm = k \<and> fst tm \<le> now s + dt then None
      else requestCache s k)"
  by (auto simp: advance_def Let_def due_def fold_delete)

lemma settle_fields [simp]:
  "now (settle p r s) = now s"
  "requestCache (settle p r s) = requestCache s"
  "invoked (settle p r s) = invoked s"
  "length (promises (settle p r s)) = length (promises s)"
  by (simp_all add: settle_def Let_def)

lemma clear_fields [simp]:
  "now (clearApiCache s) = now s"
  "requestCache (clearApiCache s) = Map.empty"
  "invoked (clearApiCache s) = invoked s"
  "promises (clearApiCache s) = promises s"
  "timers (clearApiCache s) = timers s"
  by (simp_all add: clearApiCache_def)

lemma invoked_for_simps [simp]:
  "invoked_for k (advance dt s) = invoked_for k s"
  "invoked_for k (settle p r s) = invoked_for k s"
  "invoked_for k (clearApiCache s) = invoked_for k s"
  by (simp_all add: invoked_for_def)

lemma step_pending_entry:
  assumes "pending_entry k p s" "keeps_pending p e"
  shows "pending_entry k p (step e s)"
proof (cases e)
  case (Call k' f d)
  show ?thesis
  proof (cases "requestCache s k'")
    case None
    then have "k' \<noteq> k" using assms(1) by (auto simp: pending_entry_def)
    then show ?thesis using assms(1) None Call
      by (auto simp: pending_entry_def cachedRequest_miss nth_append)
  next
    case (Some q)
    then show ?thesis using assms(1) Call by (simp add: cachedRequest_hit)
  qed
next
  case (Settle q r)
  then have qp: "q \<noteq> p" using assms(2) by simp
  show ?thesis
  proof (cases "q < length (promises s) \<and> entry_state (promises s ! q) = Pending")
    case True
    then have "entry_key (promises s ! q) \<noteq> k" using assms(1) qp
      by (auto simp: pending_entry_def)
    then show ?thesis using assms(1) qp True Settle
      by (auto simp: pending_entry_def settle_def Let_def nth_list_update)
  next
    case False
    then show ?thesis using assms(1) Settle by (auto simp: settle_def)
  qed
next
  case (Advance dt)
  then show ?thesis using assms(1)
    by (auto simp: pending_entry_def advance_requestCache list_all_iff)
next
  case ClearApiCache
  then show ?thesis using assms(2) by simp
qed

lemma step_pending_invoked:
  assumes "pending_entry k p s"
  shows "invoked_for k (step e s) = invoked_for k s"
proof (cases e)
  case (Call k' f d)
  show ?thesis
  proof (cases "requestCache s k'")
    case None
    then have "k' \<noteq> k" using assms(1) by (auto simp: pending_entry_def)
    then show ?thesis using None Call
      by (simp add: cachedRequest_miss invoked_for_def)
  next
    case (Some q)
    then show ?thesis using Call by (simp add: cachedRequest_hit)
  qed
qed simp_all


lemma run_append: "run (es @ es') s = run es' (run es s)"
  by (induction es arbitrary: s) auto

lemma pending_window:
  assumes "pending_entry k p s" "list_all (keeps_pending p) es"
  shows "pending_entry k p (run es s)
       \<and> invoked_for k (run es s) = invoked_for k s
       \<and> list_all (\<lambda>q. q = p) (call_results k es s)"
  using assms
proof (induction es arbitrary: s)
  case Nil
  then show ?case by simp
next
  case (Cons e es)
  have inv: "pending_entry k p (step e s)"
    using Cons.prems by (simp add: step_pending_entry)
  have log: "invoked_for k (step e s) = invoked_for k s"
    using Cons.prems by (simp add: step_pending_invoked)
  have hit: "\<And>f d. fst (cachedRequest k f d s) = p"
    using Cons.prems(1) by (simp add: pending_entry_def cachedRequest_hit)
  from Cons.IH[OF inv] Cons.prems(2) log hit show ?case
    by (cases e) auto
qed

lemma step_length_promises: "length (promises s) \<le> length (promises (step e s))"
  by (cases e) (auto simp: cachedRequest_def Let_def split: option.splits)

lemma step_settled_stable:
  assumes "q < length (promises s)" "entry_state (promises s ! q) = Settled out"
  shows "entry_state (promises (step e s) ! q) = Settled out"
  using assms
  by (cases e)
     (auto simp: cachedRequest_def Let_def nth_append settle_def nth_list_update
        split: option.splits)

lemma run_settled_stable:
  assumes "q < length (promises s)" "entry_state (promises s ! q) = Settled out"
  shows "q < length (promises (run es s)) \<and> entry_state (promises (run es s) ! q) = Settled out"
  using assms
proof (induction es arbitrary: s)
  case Nil
  then show ?case by simp
next
  case (Cons e es)
  have "q < length (promises (step e s))"
    using Cons.prems(1) step_length_promises[of s e] by simp
  moreover have "entry_state (promises (step e s) ! q) = Settled out"
    using Cons.prems by (rule step_settled_stable)
  ultimately show ?case using Cons.IH by simp
qed

lemma settle_pending_state:
  assumes "p < length (promises s)" "entry_state (promises s ! p) = Pending"
  shows "entry_state (promises (settle p r s) ! p) = Settled (then_data r)"
  using assms by (simp add: settle_def Let_def)

lemma miss_pending_entry:
  assumes "requestCache s k = None" "quiescent s k"
  shows "pending_entry k (length (promises s)) (snd (cachedRequest k f d s))"
  using assms
  by (auto simp: cachedRequest_miss pending_entry_def quiescent_def list_all_iff nth_append)

lemma step_now: "now (step e s) = now s + elapsed [e]"
  by (cases e) (auto simp: cachedRequest_def Let_def split: option.splits)

lemma elapsed_Cons: "elapsed (e # es) = elapsed [e] + elapsed es"
  by (cases e) simp_all

lemma run_now: "now (run es s) = now s + elapsed es"
proof (induction es arbitrary: s)
  case Nil
  then show ?case by simp
next
  case (Cons e es)
  have "now (run (e # es) s) = now (step e s) + elapsed es" using Cons.IH by simp
  then show ?case by (simp add: step_now elapsed_Cons[of e es])
qed

lemma step_timer_persists:
  assumes "(t, k) \<in> set (timers s)" "\<And>dt. e = Advance dt \<Longrightarrow> now s + dt < t"
  shows "(t, k) \<in> set (timers (step e s))"
  using assms
  by (cases e) (auto simp: cachedRequest_def Let_def settle_def split: option.splits)

lemma run_timer_persists:
  assumes "(t, k) \<in> set (timers s)" "now s + elapsed es < t"
  shows "(t, k) \<in> set (timers (run es s))"
  using assms
proof (induction es arbitrary: s)
  case Nil
  then show ?case by simp
next
  case (Cons e es)
  have "now s + elapsed [e] + elapsed es < t"
    using Cons.prems(2) by (simp add: elapsed_Cons[of e es])
  then have "now s + elapsed [e] < t" "now (step e s) + elapsed es < t"
    by (simp_all add: step_now)
  moreover have "(t, k) \<in> set (timers (step e s))"
    using Cons.prems(1) \<open>now s + elapsed [e] < t\<close> by (auto intro: step_timer_persists)
  ultimately show ?case using Cons.IH by simp
qed

lemma advance_evicts:
  assumes "(t, k) \<in> set (timers s)" "t \<le> now s + dt"
  shows "requestCache (advance dt s) k = None"
  using assms by (force simp: advance_requestCache)

lemma settle_arms_timer:
  assumes "p < length (promises s)" "entry_state (promises s ! p) = Pending"
  shows "(now s + entry_duration (promises s ! p), entry_key (promises s ! p))
           \<in> set (timers (settle p r s))"
  using assms by (simp add: settle_def Let_def)

lemma settle_pending_entry:
  assumes "pending_entry k p s"
  shows "settled_entry k p (now s + entry_duration (promises s ! p)) (settle p r s)"
  using assms
  by (auto simp: pending_entry_def settled_entry_def settle_def Let_def list_all_iff
      nth_list_update)

lemma step_settled_entry:
  assumes "settled_entry k p t s" "no_clear e" "\<And>dt. e = Advance dt \<Longrightarrow> now s + dt < t"
  shows "settled_entry k p t (step e s)"
proof (cases e)
  case (Call k' f d)
  show ?thesis
  proof (cases "requestCache s k'")
    case None
    then have "k' \<noteq> k" using assms(1) by (auto simp: settled_entry_def)
    then show ?thesis using assms(1) None Call
      by (auto simp: settled_entry_def cachedRequest_miss nth_append)
  next
    case (Some q)
    then show ?thesis using assms(1) Call by (simp add: cachedRequest_hit)
  qed
next
  case (Settle q r)
  show ?thesis
  proof (cases "q < length (promises s) \<and> entry_state (promises s ! q) = Pending")
    case True
    then have "entry_key (promises s ! q) \<noteq> k" using assms(1)
      by (auto simp: settled_entry_def)
    then show ?thesis using assms(1) True Settle
      by (auto simp: settled_entry_def settle_def Let_def nth_list_update)
  next
    case False
    then show ?thesis using assms(1) Settle by (auto simp: settle_def)
  qed
next
  case (Advance dt)
  then show ?thesis using assms(1) assms(3)[OF Advance]
    by (auto simp: settled_entry_def advance_requestCache list_all_iff)
next
  case ClearApiCache
  then show ?thesis using assms(2) by simp
qed


lemma step_settled_invoked:
  assumes "settled_entry k p t s"
  shows "invoked_for k (step e s) = invoked_for k s"
proof (cases e)
  case (Call k' f d)
  show ?thesis
  proof (cases "requestCache s k'")
    case None
    then have "k' \<noteq> k" using assms(1) by (auto simp: settled_entry_def)
    then show ?thesis using None Call
      by (simp add: cachedRequest_miss invoked_for_def)
  next
    case (Some q)
    then show ?thesis using Call by (simp add: cachedRequest_hit)
  qed
qed simp_all

lemma settled_window:
  assumes "settled_entry k p t s" "list_all no_clear es" "now s + elapsed es < t"
  shows "settled_entry k p t (run es s)
       \<and> invoked_for k (run es s) = invoked_for k s
       \<and> list_all (\<lambda>q. q = p) (call_results k es s)"
  using assms
proof (induction es arbitrary: s)
  case Nil
  then show ?case by simp
next
  case (Cons e es)
  have tm: "now s + elapsed [e] + elapsed es < t"
    using Cons.prems(3) by (simp add: elapsed_Cons[of e es])
  have inv: "settled_entry k p t (step e s)"
    using Cons.prems(1,2) tm by (auto intro: step_settled_entry)
  have log: "invoked_for k (step e s) = invoked_for k s"
    using Cons.prems(1) by (rule step_settled_invoked)
  have hit: "\<And>f d. fst (cachedRequest k f d s) = p"
    using Cons.prems(1) by (simp add: settled_entry_def cachedRequest_hit)
  have "now (step e s) + elapsed es < t" using tm by (simp add: step_now)
  from Cons.IH[OF inv _ this] Cons.prems(2) log hit show ?case
    by (cases e) auto
qed

lemma step_entry_static:
  assumes "q < length (promises s)"
  shows "entry_key (promises (step e s) ! q) = entry_key (promises s ! q)
       \<and> entry_duration (promises (step e s) ! q) = entry_duration (promises s ! q)"
  using assms
  by (cases e)
     (auto simp: cachedRequest_def Let_def nth_append settle_def nth_list_update
        split: option.splits)

lemma run_entry_static:
  assumes "q < length (promises s)"
  shows "entry_key (promises (run es s) ! q) = entry_key (promises s ! q)
       \<and> entry_duration (promises (run es s) ! q) = entry_duration (promises s ! q)"
  using assms
proof (induction es arbitrary: s)
  case Nil
  then show ?case by simp
next
  case (Cons e es)
  have "q < length (promises (step e s))"
    using Cons.prems step_length_promises[of s e] by simp
  from Cons.IH[OF this] step_entry_static[OF Cons.prems, of e] show ?case by simp
qed

lemma run_length_promises: "length (promises s) \<le> length (promises (run es s))"
proof (induction es arbitrary: s)
  case Nil
  then show ?case by simp
next
  case (Cons e es)
  from Cons.IH[of "step e s"] step_length_promises[of s e] show ?case by simp
qed

lemma settled_run:
  assumes "pending_entry k p s" and "list_all no_clear es"
    and "elapsed es < entry_duration (promises s ! p)"
  shows "settled_entry k p (now s + entry_duration (promises s ! p)) (run es (settle p r s))"
    and "entry_state (promises (run es (settle p r s)) ! p) = Settled (then_data r)"
    and "list_all (\<lambda>q. q = p) (call_results k es (settle p r s))"
    and "invoked_for k (run es (settle p r s)) = invoked_for k s"
    and "entry_duration (promises s ! p) \<le> elapsed es + dt \<Longrightarrow>
           requestCache (advance dt (run es (settle p r s))) k = None"
proof -
  let ?t = "now s + entry_duration (promises s ! p)"
  let ?s1 = "settle p r s"
  let ?s2 = "run es ?s1"
  have pend: "p < length (promises s)" "entry_state (promises s ! p) = Pending"
    "entry_key (promises s ! p) = k"
    using assms(1) by (simp_all add: pending_entry_def)
  have inv1: "settled_entry k p ?t ?s1" using assms(1) by (rule settle_pending_entry)
  have tm: "now ?s1 + elapsed es < ?t" using assms(3) by simp
  note w = settled_window[OF inv1 assms(2) tm]
  show "settled_entry k p ?t ?s2" using w by simp
  show "list_all (\<lambda>q. q = p) (call_results k es ?s1)" using w by simp
  show "invoked_for k ?s2 = invoked_for k s" using w by simp
  have "entry_state (promises ?s1 ! p) = Settled (then_data r)"
    using pend(1,2) by (rule settle_pending_state)
  moreover have "p < length (promises ?s1)" using pend(1) by simp
  ultimately show "entry_state (promises ?s2 ! p) = Settled (then_data r)"
    using run_settled_stable by blast
  have armed: "(?t, k) \<in> set (timers ?s1)"
    using settle_arms_timer[OF pend(1,2), of r] pend(3) by simp
  have "(?t, k) \<in> set (timers ?s2)" using armed tm by (rule run_timer_persists)
  moreover have "now ?s2 = now s + elapsed es" by (simp add: run_now)
  ultimately show "entry_duration (promises s ! p) \<le> elapsed es + dt \<Longrightarrow>
      requestCache (advance dt ?s2) k = None"
    by (auto intro: advance_evicts)
qed

lemmas cache_eval = init_def cachedRequest_def settle_def advance_def due_def Let_def
  clearApiCache_def then_data_def invoked_for_def

lemma cache_inv_init: "cache_inv init"
  by (simp add: cache_inv_def init_def quiescent_def)

lemma quiescent_iff:
  "quiescent s k \<longleftrightarrow>
     (\<forall>tm \<in> set (timers s). snd tm \<noteq> k) \<and>
     (\<forall>q < length (promises s). entry_key (promises s ! q) = k \<longrightarrow>
        entry_state (promises s ! q) \<noteq> Pending)"
proof -
  have "list_all (\<lambda>tm. snd tm \<noteq> k) (timers s) \<longleftrightarrow> (\<forall>tm \<in> set (timers s). snd tm \<noteq> k)"
    by (simp add: list_all_iff)
  moreover have "list_all (\<lambda>e. entry_key e = k \<longrightarrow> entry_state e \<noteq> Pending) (promises s) \<longleftrightarrow>
     (\<forall>q < length (promises s). entry_key (promises s ! q) = k \<longrightarrow>
        entry_state (promises s ! q) \<noteq> Pending)"
    by (simp add: list_all_length)
  ultimately show ?thesis by (simp add: quiescent_def)
qed

lemma quiescent_step_other:
  assumes "requestCache s k = None" "quiescent s k" "no_clear e"
  shows "(requestCache (step e s) k = None \<and> quiescent (step e s) k)
       \<or> pending_entry k (length (promises s)) (step e s)"
proof (cases e)
  case (Call k' f d)
  show ?thesis
  proof (cases "requestCache s k'")
    case None
    show ?thesis
    proof (cases "k' = k")
      case True
      then show ?thesis using miss_pending_entry[OF assms(1,2)] Call by simp
    next
      case False
      then show ?thesis using assms(1,2) None Call
        by (auto simp: cachedRequest_miss quiescent_iff nth_append)
    qed
  next
    case (Some q)
    then show ?thesis using assms(1,2) Call by (simp add: cachedRequest_hit)
  qed
next
  case (Settle q r)
  show ?thesis
  proof (cases "q < length (promises s) \<and> entry_state (promises s ! q) = Pending")
    case True
    then have "entry_key (promises s ! q) \<noteq> k" using assms(2)
      by (auto simp: quiescent_iff)
    then show ?thesis using assms(1,2) True Settle
      by (auto simp: quiescent_iff settle_def Let_def nth_list_update)
  next
    case False
    then show ?thesis using assms(1,2) Settle by (auto simp: settle_def)
  qed
next
  case (Advance dt)
  then show ?thesis using assms(1,2)
    by (auto simp: quiescent_iff advance_requestCache)
next
  case ClearApiCache
  then show ?thesis using assms(3) by simp
qed

lemma settled_step:
  assumes "settled_entry k p t s" "(t, k) \<in> set (timers s)" "no_clear e"
  shows "(requestCache (step e s) k = None \<and> quiescent (step e s) k)
       \<or> (settled_entry k p t (step e s) \<and> (t, k) \<in> set (timers (step e s)))"
proof (cases "\<exists>dt. e = Advance dt \<and> t \<le> now s + dt")
  case False
  then have "\<And>dt. e = Advance dt \<Longrightarrow> now s + dt < t" by auto
  then show ?thesis
    using step_settled_entry[OF assms(1,3)] step_timer_persists[OF assms(2)]
    by simp
next
  case True
  then obtain dt where e: "e = Advance dt" and dt: "t \<le> now s + dt" by blast
  have "requestCache (step e s) k = None"
    using advance_evicts[OF assms(2) dt] e by simp
  moreover have "quiescent (step e s) k"
    using assms(1) dt e
    by (auto simp: settled_entry_def quiescent_iff list_all_iff)
  ultimately show ?thesis by simp
qed

lemma pending_step:
  assumes "pending_entry k p s" "no_clear e"
  shows "pending_entry k p (step e s)
       \<or> (\<exists>t. settled_entry k p t (step e s) \<and> (t, k) \<in> set (timers (step e s)))"
proof (cases "\<exists>r. e = Settle p r")
  case True
  then obtain r where e: "e = Settle p r" by blast
  let ?t = "now s + entry_duration (promises s ! p)"
  have pend: "p < length (promises s)" "entry_state (promises s ! p) = Pending"
    "entry_key (promises s ! p) = k"
    using assms(1) by (simp_all add: pending_entry_def)
  have "settled_entry k p ?t (step e s)"
    using settle_pending_entry[OF assms(1), of r] e by simp
  moreover have "(?t, k) \<in> set (timers (step e s))"
    using settle_arms_timer[OF pend(1,2), of r] pend(3) e by simp
  ultimately show ?thesis by blast
next
  case False
  then have "keeps_pending p e" using assms(2) by (cases e) auto
  then show ?thesis using step_pending_entry[OF assms(1)] by simp
qed

lemma cache_inv_step:
  assumes "cache_inv s" "no_clear e"
  shows "cache_inv (step e s)"
  unfolding cache_inv_def
proof
  fix key
  have "(requestCache s key = None \<and> quiescent s key)
       \<or> (\<exists>p. pending_entry key p s)
       \<or> (\<exists>p t. settled_entry key p t s \<and> (t, key) \<in> set (timers s))"
    using assms(1) by (simp add: cache_inv_def)
  then show "(requestCache (step e s) key = None \<and> quiescent (step e s) key)
       \<or> (\<exists>p. pending_entry key p (step e s))
       \<or> (\<exists>p t. settled_entry key p t (step e s) \<and> (t, key) \<in> set (timers (step e s)))"
  proof (elim disjE exE conjE, goal_cases)
    case 1
    then show ?case using quiescent_step_other[OF 1 assms(2)] by blast
  next
    case (2 p)
    then show ?case using pending_step[OF 2 assms(2)] by blast
  next
    case (3 p t)
    then show ?case using settled_step[OF 3 assms(2)] by blast
  qed
qed

lemma cache_inv_run:
  assumes "cache_inv s" "list_all no_clear es"
  shows "cache_inv (run es s)"
  using assms by (induction es arbitrary: s) (auto intro: cache_inv_step)

lemma reachable_quiescent:
  assumes "list_all no_clear es" "requestCache (run es init) k = None"
  shows "quiescent (run es init) k"
proof -
  let ?s = "run es init"
  have "cache_inv ?s" using cache_inv_init assms(1) by (rule cache_inv_run)
  then have "(requestCache ?s k = None \<and> quiescent ?s k)
       \<or> (\<exists>p. pending_entry k p ?s)
       \<or> (\<exists>p t. settled_entry k p t ?s \<and> (t, k) \<in> set (timers ?s))"
    by (simp add: cache_inv_def)
  moreover have "\<not> pending_entry k p ?s" for p
    using assms(2) by (simp add: pending_entry_def)
  moreover have "\<not> settled_entry k p t ?s" for p t
    using assms(2) by (simp add: settled_entry_def)
  ultimately show ?thesis by blast
qed

lemma reachable_pending_entry:
  assumes "list_all no_clear es" "requestCache (run es init) k = Some p"
    "entry_state (promises (run es init) ! p) = Pending"
  shows "pending_entry k p (run es init)"
proof -
  let ?s = "run es init"
  have "cache_inv ?s" using cache_inv_init assms(1) by (rule cache_inv_run)
  then have "(requestCache ?s k = None \<and> quiescent ?s k)
       \<or> (\<exists>p. pending_entry k p ?s)
       \<or> (\<exists>p t. settled_entry k p t ?s \<and> (t, k) \<in> set (timers ?s))"
    by (simp add: cache_inv_def)
  moreover have "\<not> settled_entry k q t ?s" for q t
    using assms(2,3) by (auto simp: settled_entry_def)
  moreover have "q = p" if "pending_entry k q ?s" for q
    using that assms(2) by (simp add: pending_entry_def)
  ultimately show ?thesis using assms(2) by auto
qed

text \<open>
  C1 fails after \<open>clearApiCache\<close>. A timer deletes by key, not by entry, and
  \<open>clearApiCache\<close> does not disarm the timers of the entries it removes. In the run below
  the key is absent when it is called at time 300, so that call invokes its \<open>requestFn\<close>
  and registers promise 1. During the pending window of that request (nothing settles
  promise 1 and the cache is not cleared) the timer of the earlier, cleared entry runs at
  5100 and deletes the key, and the call made then is handed a new promise and invokes a
  second \<open>requestFn\<close> while the first is still pending.
\<close>

theorem stale_timer_breaks_dedup:
  "requestCache (run stale_timer_prefix init) ''categories'' = None
   \<and> fst (cachedRequest ''categories'' 12 5000 (run stale_timer_prefix init)) = 1
   \<and> list_all (keeps_pending 1) stale_timer_window
   \<and> call_results ''categories'' stale_timer_window
        (snd (cachedRequest ''categories'' 12 5000 (run stale_timer_prefix init))) = [2]
   \<and> entry_state
        (promises (run stale_timer_window
           (snd (cachedRequest ''categories'' 12 5000 (run stale_timer_prefix init)))) ! 1)
       = Pending
   \<and> invoked_for ''categories''
        (run stale_timer_window
           (snd (cachedRequest ''categories'' 12 5000 (run stale_timer_prefix init))))
       = [11, 12, 13]"
  by (simp add: stale_timer_prefix_def stale_timer_window_def cache_eval)

text \<open>The key is not quiescent there: the timer of the cleared entry is still armed.\<close>

lemma stale_prefix_not_quiescent:
  "\<not> quiescent (run stale_timer_prefix init) ''categories''"
  by (simp add: stale_timer_prefix_def cache_eval quiescent_def)

text \<open>
  Where no timer of a removed entry is left, the calls are deduplicated. A call for a key
  that is not in the map invokes its \<open>requestFn\<close> and registers the pending promise. While
  that request is pending, whatever else happens (calls for this or other keys, other
  requests settling, any amount of time passing), every call for the key returns that same
  promise and no further \<open>requestFn\<close> is invoked for the key: the log of invocations for
  the key grows by exactly the first caller's \<open>requestFn\<close>. Since all callers hold one
  promise, they all receive the one outcome with which it settles, and a settled promise
  keeps its outcome through every later event. The key is taken to be quiescent when the
  first call arrives, which it is in every state that arises without \<open>clearApiCache\<close>.
\<close>

lemma dedup_pending_window:
  assumes "requestCache s k = None" and "quiescent s k"
    and "list_all (keeps_pending (length (promises s))) es"
  shows "fst (cachedRequest k f d s) = length (promises s)
       \<and> invoked_for k (run es (snd (cachedRequest k f d s))) = invoked_for k s @ [f]
       \<and> list_all (\<lambda>q. q = fst (cachedRequest k f d s))
            (call_results k es (snd (cachedRequest k f d s)))
       \<and> entry_state (promises (run es (snd (cachedRequest k f d s))) ! fst (cachedRequest k f d s))
           = Pending
       \<and> entry_state
           (promises (run es' (settle (fst (cachedRequest k f d s)) r
                                (run es (snd (cachedRequest k f d s)))))
              ! fst (cachedRequest k f d s))
           = Settled (then_data r)"
proof -
  let ?p = "length (promises s)"
  let ?s1 = "snd (cachedRequest k f d s)"
  let ?s2 = "run es ?s1"
  have p: "fst (cachedRequest k f d s) = ?p"
    using assms(1) by (simp add: cachedRequest_miss)
  have inv1: "pending_entry k ?p ?s1"
    using assms(1,2) by (rule miss_pending_entry)
  have log1: "invoked_for k ?s1 = invoked_for k s @ [f]"
    using assms(1) by (simp add: cachedRequest_miss invoked_for_def)
  note w = pending_window[OF inv1 assms(3)]
  have inv2: "pending_entry k ?p ?s2" using w by simp
  then have pend: "?p < length (promises ?s2)" "entry_state (promises ?s2 ! ?p) = Pending"
    by (simp_all add: pending_entry_def)
  have "entry_state (promises (settle ?p r ?s2) ! ?p) = Settled (then_data r)"
    using pend by (rule settle_pending_state)
  moreover have "?p < length (promises (settle ?p r ?s2))" using pend(1) by simp
  ultimately have "entry_state (promises (run es' (settle ?p r ?s2)) ! ?p) = Settled (then_data r)"
    using run_settled_stable by blast
  with p w log1 pend show ?thesis by simp
qed

lemma dedup_pending_window_witness:
  "requestCache (init :: (string, nat, nat, string) cache) ''a'' = None
   \<and> quiescent (init :: (string, nat, nat, string) cache) ''a''
   \<and> list_all (keeps_pending (length (promises (init :: (string, nat, nat, string) cache))))
        [Call ''a'' 2 5000, Advance 100, Call ''b'' 3 5000,
         Settle 1 (Rejected ''boom''), Advance 6000, Call ''a'' 4 5000]
   \<and> invoked_for ''a''
        (run [Call ''a'' 2 5000, Advance 100, Call ''b'' 3 5000,
              Settle 1 (Rejected ''boom''), Advance 6000, Call ''a'' 4 5000]
           (snd (cachedRequest ''a'' 1 5000 (init :: (string, nat, nat, string) cache))))
       = [1]
   \<and> call_results ''a''
        [Call ''a'' 2 5000, Advance 100, Call ''b'' 3 5000,
         Settle 1 (Rejected ''boom''), Advance 6000, Call ''a'' 4 5000]
        (snd (cachedRequest ''a'' 1 5000 (init :: (string, nat, nat, string) cache)))
       = [0, 0]"
proof -
  let ?s = "init :: (string, nat, nat, string) cache"
  let ?es = "[Call ''a'' 2 5000, Advance 100, Call ''b'' 3 5000,
              Settle 1 (Rejected ''boom''), Advance 6000, Call ''a'' 4 5000]
             :: (string, nat, nat, string) event list"
  have h1: "requestCache ?s ''a'' = None" by (simp add: init_def)
  have h2: "quiescent ?s ''a''" by (simp add: init_def quiescent_def)
  have h3: "list_all (keeps_pending (length (promises ?s))) ?es" by (simp add: init_def)
  have len: "length (call_results ''a'' ?es (snd (cachedRequest ''a'' 1 5000 ?s))) = 2"
    by (simp add: init_def cachedRequest_def Let_def settle_def advance_def due_def)
  from dedup_pending_window[OF h1 h2 h3, of 1 5000] have
    a: "invoked_for ''a'' (run ?es (snd (cachedRequest ''a'' 1 5000 ?s))) = invoked_for ''a'' ?s @ [1]"
    and b: "list_all (\<lambda>q. q = fst (cachedRequest ''a'' 1 5000 ?s))
              (call_results ''a'' ?es (snd (cachedRequest ''a'' 1 5000 ?s)))"
    and c: "fst (cachedRequest ''a'' 1 5000 ?s) = length (promises ?s)"
    by blast+
  have "call_results ''a'' ?es (snd (cachedRequest ''a'' 1 5000 ?s)) = [0, 0]"
    using b c len by (auto simp: init_def length_Suc_conv numeral_2_eq_2)
  moreover have "invoked_for ''a'' ?s = []" by (simp add: init_def invoked_for_def)
  ultimately show ?thesis using h1 h2 h3 a by simp
qed

text \<open>
  C9 fails after \<open>clearApiCache\<close>, by the same timer that breaks C1. In the run below the
  second request for the key is rejected at time 4000 and arms its own timer, due at 9000.
  At 5000, 1000 milliseconds after the settlement and with a \<open>cacheDuration\<close> of 5000, the
  timer of the earlier, cleared entry has deleted the key: the settled promise is no
  longer served, and a call invokes a new \<open>requestFn\<close>.
\<close>

theorem stale_timer_cuts_window:
  "now (run stale_settled_trace init) = 5000
   \<and> entry_state (promises (run stale_settled_trace init) ! 1) = Settled (Rejected ''boom'')
   \<and> entry_duration (promises (run stale_settled_trace init) ! 1) = 5000
   \<and> timers (run stale_settled_trace init) = [(9000, ''categories'')]
   \<and> requestCache (run stale_settled_trace init) ''categories'' = None
   \<and> fst (cachedRequest ''categories'' 13 5000 (run stale_settled_trace init)) = 2
   \<and> invoked_for ''categories''
        (snd (cachedRequest ''categories'' 13 5000 (run stale_settled_trace init)))
       = [11, 12, 13]"
  by (simp add: stale_settled_trace_def cache_eval)

text \<open>
  Where no timer of a removed entry is left, the window is as C9 says. When the request
  behind the pending entry of a key settles, fulfilled or rejected, the entry stays in the
  map for \<open>cacheDuration\<close> milliseconds counted from that moment: as long as less time than
  that has passed, every call for the key returns the settled promise with its outcome (a
  rejection included), leaves the state as it is and invokes no \<open>requestFn\<close>; once
  \<open>cacheDuration\<close> milliseconds have passed the key is gone from the map. The window holds
  calls for any key, other requests settling and time passing, but no \<open>clearApiCache\<close>;
  before it, the entry is the only pending request of its key and no timer is armed for
  the key, as in every state reached without \<open>clearApiCache\<close>.
\<close>

lemma settled_entry_served:
  assumes "pending_entry k p s" and "list_all no_clear es"
    and "elapsed es < entry_duration (promises s ! p)"
  shows "requestCache (run es (settle p r s)) k = Some p
       \<and> entry_state (promises (run es (settle p r s)) ! p) = Settled (then_data r)
       \<and> list_all (\<lambda>q. q = p) (call_results k es (settle p r s))
       \<and> invoked_for k (run es (settle p r s)) = invoked_for k s
       \<and> cachedRequest k f d (run es (settle p r s)) = (p, run es (settle p r s))
       \<and> (entry_duration (promises s ! p) \<le> elapsed es + dt \<longrightarrow>
            requestCache (advance dt (run es (settle p r s))) k = None)"
proof -
  note w = settled_run[OF assms]
  have "requestCache (run es (settle p r s)) k = Some p"
    using w(1)[of r] by (simp add: settled_entry_def)
  then show ?thesis using w(2-5) by (simp add: cachedRequest_hit)
qed

lemma settled_entry_served_witness:
  "pending_entry ''a'' 0 (snd (cachedRequest ''a'' 11 5000 (init :: (string, nat, nat, string) cache)))
   \<and> list_all no_clear [Advance 2000, Call ''a'' 2 5000, Advance 2999, Call ''a'' 3 5000
        :: (string, nat, nat, string) event]
   \<and> elapsed [Advance 2000, Call ''a'' 2 5000, Advance 2999, Call ''a'' 3 5000
        :: (string, nat, nat, string) event] < 5000
   \<and> entry_state (promises
        (run [Advance 2000, Call ''a'' 2 5000, Advance 2999, Call ''a'' 3 5000]
          (settle 0 (Rejected ''boom'')
            (snd (cachedRequest ''a'' 11 5000 (init :: (string, nat, nat, string) cache))))) ! 0)
       = Settled (Rejected ''boom'')
   \<and> invoked_for ''a''
        (run [Advance 2000, Call ''a'' 2 5000, Advance 2999, Call ''a'' 3 5000]
          (settle 0 (Rejected ''boom'')
            (snd (cachedRequest ''a'' 11 5000 (init :: (string, nat, nat, string) cache)))))
       = [11]
   \<and> requestCache (advance 1
        (run [Advance 2000, Call ''a'' 2 5000, Advance 2999, Call ''a'' 3 5000]
          (settle 0 (Rejected ''boom'')
            (snd (cachedRequest ''a'' 11 5000 (init :: (string, nat, nat, string) cache)))))) ''a''
       = None"
proof -
  let ?s = "snd (cachedRequest ''a'' 11 5000 (init :: (string, nat, nat, string) cache))"
  let ?es = "[Advance 2000, Call ''a'' 2 5000, Advance 2999, Call ''a'' 3 5000]
             :: (string, nat, nat, string) event list"
  have h1: "pending_entry ''a'' 0 ?s"
    using miss_pending_entry[of "init :: (string, nat, nat, string) cache" "''a''" 11 5000]
    by (simp add: init_def quiescent_def)
  have h2: "list_all no_clear ?es" by simp
  have d: "entry_duration (promises ?s ! 0) = 5000"
    by (simp add: init_def cachedRequest_def Let_def)
  have h3: "elapsed ?es < entry_duration (promises ?s ! 0)" by (simp add: d)
  have i: "invoked_for ''a'' ?s = [11]"
    by (simp add: init_def cachedRequest_def Let_def invoked_for_def)
  from settled_entry_served[OF h1 h2 h3, of "Rejected ''boom''" 1 5000 1] h1 h2 d i
  show ?thesis by (simp add: then_data_def)
qed

text \<open>
  C2, as stated, fails. The key is registered at time 0 with a \<open>cacheDuration\<close> of 5000 and
  its response arrives at time 3000. At time 5001, later than registration plus
  \<open>cacheDuration\<close>, the key is still in the map, and a call for it returns the first
  promise, leaves the state unchanged and invokes no \<open>requestFn\<close>: the timer is armed in
  the \<open>finally\<close> callback, at settlement.
\<close>

theorem eviction_from_registration_counterexample:
  "now (run late_call_trace init) = 5001
   \<and> 0 + 5000 < now (run late_call_trace init)
   \<and> requestCache (run late_call_trace init) ''categories'' = Some 0
   \<and> cachedRequest ''categories'' 12 5000 (run late_call_trace init)
       = (0, run late_call_trace init)
   \<and> invoked (run late_call_trace init) = [(''categories'', 11)]"
  by (simp add: late_call_trace_def cache_eval)

text \<open>
  C2, amended. The eviction timer of an entry is armed when its request settles and is due
  \<open>cacheDuration\<close> milliseconds after that moment; neither registration nor a later hit
  arms or moves a timer. While the request is pending, however long, the key stays in the
  map with no timer armed for it. After settlement the only timer armed for the key is the
  one due at settlement time plus \<open>cacheDuration\<close>; until then the key maps to the same
  promise, and once that time is reached the key is deleted and the next call for it
  invokes its \<open>requestFn\<close> anew. (No \<open>clearApiCache\<close> in between, key quiescent at first.)
\<close>

theorem eviction_after_settlement:
  fixes s :: "('k, 'f, 'v, 'e) cache" and f g :: 'f and k :: 'k
    and r :: "('v AxiosResponse, 'e) outcome" and d d' dt :: nat
    and es1 es2 :: "('k, 'f, 'v, 'e) event list"
  defines "p \<equiv> length (promises s)"
  assumes "requestCache s k = None" and "quiescent s k"
    and "list_all (keeps_pending p) es1"
    and "list_all no_clear es2" and "elapsed es2 < d" and "d \<le> elapsed es2 + dt"
  defines "s1 \<equiv> run es1 (snd (cachedRequest k f d s))"
  defines "s2 \<equiv> run es2 (settle p r s1)"
  defines "s3 \<equiv> advance dt s2"
  shows "requestCache s1 k = Some p
       \<and> list_all (\<lambda>tm. snd tm \<noteq> k) (timers s1)
       \<and> list_all (\<lambda>tm. snd tm = k \<longrightarrow> fst tm = now s1 + d) (timers s2)
       \<and> requestCache s2 k = Some p
       \<and> requestCache s3 k = None
       \<and> fst (cachedRequest k g d' s3) = length (promises s3)
       \<and> p < length (promises s3)
       \<and> invoked_for k (snd (cachedRequest k g d' s3)) = invoked_for k s @ [f, g]"
proof -
  let ?s0 = "snd (cachedRequest k f d s)"
  have inv0: "pending_entry k p ?s0"
    unfolding p_def using assms(2,3) by (rule miss_pending_entry)
  have log0: "invoked_for k ?s0 = invoked_for k s @ [f]"
    using assms(2) by (simp add: cachedRequest_miss invoked_for_def)
  have p0: "p < length (promises ?s0)" using inv0 by (simp add: pending_entry_def)
  have dur0: "entry_duration (promises ?s0 ! p) = d"
    using assms(2) by (simp add: cachedRequest_miss p_def)
  note w1 = pending_window[OF inv0 assms(4)]
  then have inv1: "pending_entry k p s1" and log1: "invoked_for k s1 = invoked_for k s @ [f]"
    by (simp_all add: s1_def log0)
  have dur1: "entry_duration (promises s1 ! p) = d"
    using run_entry_static[OF p0, of es1] dur0 by (simp add: s1_def)
  have tm: "elapsed es2 < entry_duration (promises s1 ! p)" using assms(6) dur1 by simp
  have ev: "entry_duration (promises s1 ! p) \<le> elapsed es2 + dt" using assms(7) dur1 by simp
  note w2 = settled_run[OF inv1 assms(5) tm]
  have inv2: "settled_entry k p (now s1 + d) s2"
    using w2(1)[of r] dur1 by (simp add: s2_def)
  have none3: "requestCache s3 k = None"
    using w2(5)[OF ev] by (simp add: s3_def s2_def)
  have log3: "invoked_for k s3 = invoked_for k s @ [f]"
    using w2(4)[of r] log1 by (simp add: s3_def s2_def)
  have "p < length (promises s2)" using inv2 by (simp add: settled_entry_def)
  then have p3: "p < length (promises s3)" by (simp add: s3_def)
  have call3: "fst (cachedRequest k g d' s3) = length (promises s3)"
    "invoked_for k (snd (cachedRequest k g d' s3)) = invoked_for k s3 @ [g]"
    using none3 by (simp_all add: cachedRequest_miss invoked_for_def)
  show ?thesis
    using inv1 inv2 none3 log3 p3 call3
    by (simp add: pending_entry_def settled_entry_def)
qed

theorem eviction_after_settlement_witness:
  "requestCache (init :: (string, nat, nat, string) cache) ''a'' = None
   \<and> quiescent (init :: (string, nat, nat, string) cache) ''a''
   \<and> list_all (keeps_pending (length (promises (init :: (string, nat, nat, string) cache))))
        [Advance 9000, Call ''a'' 12 5000 :: (string, nat, nat, string) event]
   \<and> list_all no_clear [Advance 4999, Call ''a'' 13 5000 :: (string, nat, nat, string) event]
   \<and> elapsed [Advance 4999, Call ''a'' 13 5000 :: (string, nat, nat, string) event] < 5000
   \<and> 5000 \<le> elapsed [Advance 4999, Call ''a'' 13 5000 :: (string, nat, nat, string) event] + 1
   \<and> requestCache
         (run [Advance 9000, Call ''a'' 12 5000]
            (snd (cachedRequest ''a'' 11 5000 (init :: (string, nat, nat, string) cache)))) ''a''
       = Some 0
   \<and> invoked_for ''a''
        (snd (cachedRequest ''a'' 14 5000
          (advance 1
            (run [Advance 4999, Call ''a'' 13 5000]
              (settle 0 (Rejected ''late'')
                (run [Advance 9000, Call ''a'' 12 5000]
                  (snd (cachedRequest ''a'' 11 5000
                     (init :: (string, nat, nat, string) cache)))))))))
       = [11, 14]"
proof -
  let ?s = "init :: (string, nat, nat, string) cache"
  have h1: "requestCache ?s ''a'' = None" by (simp add: init_def)
  have h2: "quiescent ?s ''a''" by (simp add: init_def quiescent_def)
  have h3: "list_all (keeps_pending (length (promises ?s)))
              [Advance 9000, Call ''a'' 12 5000 :: (string, nat, nat, string) event]"
    by simp
  have h4: "list_all no_clear [Advance 4999, Call ''a'' 13 5000 :: (string, nat, nat, string) event]"
    by simp
  have h5: "elapsed [Advance 4999, Call ''a'' 13 5000 :: (string, nat, nat, string) event] < 5000"
    by simp
  have h6: "5000 \<le> elapsed [Advance 4999, Call ''a'' 13 5000 :: (string, nat, nat, string) event] + 1"
    by simp
  have l: "length (promises ?s) = 0" "invoked_for ''a'' ?s = []"
    by (simp_all add: init_def invoked_for_def)
  from eviction_after_settlement[OF h1 h2 h3 h4 h5 h6, of 11 "Rejected ''late''" 14 5000]
    h1 h2 h3 h4 h5 h6 l
  show ?thesis by simp
qed

text \<open>
  C5, as stated, fails where the window is counted from registration. The key is
  registered at time 0 with a \<open>cacheDuration\<close> of 5000 and its request is rejected at time
  3000. At time 5001, later than registration plus \<open>cacheDuration\<close>, the key is still in
  the map: a call for it is handed the rejected promise, leaves the state unchanged and
  invokes no \<open>requestFn\<close>. The timer is armed in the \<open>finally\<close> callback, at the rejection.
\<close>

theorem rejection_window_counterexample:
  "now (run late_rejection_trace init) = 5001
   \<and> 0 + 5000 < now (run late_rejection_trace init)
   \<and> cachedRequest ''categories'' 12 5000 (run late_rejection_trace init)
       = (0, run late_rejection_trace init)
   \<and> entry_state (promises (run late_rejection_trace init) ! 0) = Settled (Rejected ''boom'')
   \<and> invoked (run late_rejection_trace init) = [(''categories'', 11)]"
  by (simp add: late_rejection_trace_def cache_eval)

text \<open>
  C5, amended. When the request behind a pending promise of a key is rejected, the promise
  is rejected with the same reason, so every caller that joined it receives that
  rejection, and it stays so through every later event. The rejection arms the eviction
  timer, due \<open>cacheDuration\<close> milliseconds after the rejection (not after registration):
  once that time has passed the key is removed from the map, whatever happened in between,
  and a call for the key made then invokes its \<open>requestFn\<close> again and returns a new pending
  promise, not the rejected one.
\<close>

theorem rejection_propagates_and_expires:
  fixes s :: "('k, 'f, 'v, 'e) cache" and g :: 'f and k :: 'k and e :: 'e and d' dt :: nat
    and es es' :: "('k, 'f, 'v, 'e) event list"
  assumes "p < length (promises s)" and "entry_state (promises s ! p) = Pending"
    and "entry_key (promises s ! p) = k"
    and "elapsed es < entry_duration (promises s ! p)"
    and "entry_duration (promises s ! p) \<le> elapsed es + dt"
  defines "s1 \<equiv> settle p (Rejected e) s"
  defines "s2 \<equiv> run es s1"
  defines "s3 \<equiv> advance dt s2"
  defines "s4 \<equiv> run es' (snd (cachedRequest k g d' s3))"
  shows "entry_state (promises s1 ! p) = Settled (Rejected e)
       \<and> entry_state (promises s2 ! p) = Settled (Rejected e)
       \<and> entry_state (promises s4 ! p) = Settled (Rejected e)
       \<and> (now s + entry_duration (promises s ! p), k) \<in> set (timers s1)
       \<and> requestCache s3 k = None
       \<and> fst (cachedRequest k g d' s3) = length (promises s3)
       \<and> fst (cachedRequest k g d' s3) \<noteq> p
       \<and> entry_state (promises (snd (cachedRequest k g d' s3)) ! fst (cachedRequest k g d' s3))
           = Pending
       \<and> invoked_for k (snd (cachedRequest k g d' s3)) = invoked_for k s3 @ [g]"
proof -
  let ?t = "now s + entry_duration (promises s ! p)"
  have st1: "entry_state (promises s1 ! p) = Settled (Rejected e)"
    using settle_pending_state[OF assms(1,2), of "Rejected e"]
    by (simp add: s1_def then_data_def)
  have len1: "p < length (promises s1)" using assms(1) by (simp add: s1_def)
  have st2: "p < length (promises s2)" "entry_state (promises s2 ! p) = Settled (Rejected e)"
    using run_settled_stable[OF len1 st1, of es] by (simp_all add: s2_def)
  have armed: "(?t, k) \<in> set (timers s1)"
    using settle_arms_timer[OF assms(1,2), of "Rejected e"] assms(3) by (simp add: s1_def)
  have "now s1 + elapsed es < ?t" using assms(4) by (simp add: s1_def)
  with armed have "(?t, k) \<in> set (timers s2)"
    unfolding s2_def by (rule run_timer_persists)
  moreover have "now s2 = now s + elapsed es" by (simp add: s2_def s1_def run_now)
  ultimately have none3: "requestCache s3 k = None"
    unfolding s3_def using assms(5) by (auto intro: advance_evicts)
  have st3: "p < length (promises s3)" "entry_state (promises s3 ! p) = Settled (Rejected e)"
    using st2 by (simp_all add: s3_def)
  let ?c = "cachedRequest k g d' s3"
  have call: "fst ?c = length (promises s3)"
    "entry_state (promises (snd ?c) ! fst ?c) = Pending"
    "invoked_for k (snd ?c) = invoked_for k s3 @ [g]"
    "p < length (promises (snd ?c))"
    "entry_state (promises (snd ?c) ! p) = Settled (Rejected e)"
    using none3 st3 by (simp_all add: cachedRequest_miss invoked_for_def nth_append)
  have st4: "entry_state (promises s4 ! p) = Settled (Rejected e)"
    using run_settled_stable[OF call(4,5), of es'] by (simp add: s4_def)
  show ?thesis using st1 st2 st3 st4 armed none3 call by simp
qed

theorem rejection_propagates_and_expires_witness:
  "(0::nat) < length (promises (snd (cachedRequest ''a'' 11 2000 (init :: (string, nat, nat, string) cache))))
   \<and> entry_state (promises (snd (cachedRequest ''a'' 11 2000 (init :: (string, nat, nat, string) cache))) ! 0) = Pending
   \<and> entry_key (promises (snd (cachedRequest ''a'' 11 2000 (init :: (string, nat, nat, string) cache))) ! 0) = ''a''
   \<and> elapsed [Call ''a'' 12 2000, Advance 1500, ClearApiCache :: (string, nat, nat, string) event]
       < entry_duration (promises (snd (cachedRequest ''a'' 11 2000 (init :: (string, nat, nat, string) cache))) ! 0)
   \<and> entry_duration (promises (snd (cachedRequest ''a'' 11 2000 (init :: (string, nat, nat, string) cache))) ! 0)
       \<le> elapsed [Call ''a'' 12 2000, Advance 1500, ClearApiCache :: (string, nat, nat, string) event] + 500
   \<and> entry_state (promises
         (run [Call ''a'' 12 2000, Advance 1500, ClearApiCache]
            (settle 0 (Rejected ''boom'')
               (snd (cachedRequest ''a'' 11 2000 (init :: (string, nat, nat, string) cache))))) ! 0)
       = Settled (Rejected ''boom'')
   \<and> fst (cachedRequest ''a'' 13 2000
         (advance 500
           (run [Call ''a'' 12 2000, Advance 1500, ClearApiCache]
              (settle 0 (Rejected ''boom'')
                 (snd (cachedRequest ''a'' 11 2000 (init :: (string, nat, nat, string) cache)))))))
       \<noteq> 0"
proof -
  let ?s = "snd (cachedRequest ''a'' 11 2000 (init :: (string, nat, nat, string) cache))"
  let ?es = "[Call ''a'' 12 2000, Advance 1500, ClearApiCache] :: (string, nat, nat, string) event list"
  have h1: "0 < length (promises ?s)" by (simp add: cache_eval)
  have h2: "entry_state (promises ?s ! 0) = Pending" by (simp add: cache_eval)
  have h3: "entry_key (promises ?s ! 0) = ''a''" by (simp add: cache_eval)
  have d: "entry_duration (promises ?s ! 0) = 2000" by (simp add: cache_eval)
  have h4: "elapsed ?es < entry_duration (promises ?s ! 0)" using d by simp
  have h5: "entry_duration (promises ?s ! 0) \<le> elapsed ?es + 500" using d by simp
  from rejection_propagates_and_expires[OF h1 h2 h3 h4 h5,
      where es' = "[]" and g = 13 and d' = 2000 and e = "''boom''"]
    h1 h2 h3 h4 h5 d
  show ?thesis by (simp add: cache_eval)
qed

section \<open>Cache keys: properties\<close>

lemmas key_eval = getProducts_cacheKey_def getProducts_params_def getProducts_acc_def spread_def
  URLSearchParams_toString_def form_urlencode_def encodeURIComponent_def alphanumeric_def
  percent_def utf8_def hex2_def digit_def toString_nat.simps toString_int_def
  trim_def isWhiteSpace_def

lemma trim_whitespace: "list_all isWhiteSpace query \<Longrightarrow> trim query = []"
proof -
  assume "list_all isWhiteSpace query"
  then have d: "dropWhile isWhiteSpace query = []"
    by (induction query) auto
  show ?thesis by (simp add: trim_def d)
qed

lemma trim_empty_iff: "trim query = [] \<longleftrightarrow> list_all isWhiteSpace query"
proof
  assume "trim query = []"
  then have "dropWhile isWhiteSpace (rev (dropWhile isWhiteSpace query)) = []"
    by (simp add: trim_def)
  then have "\<forall>c \<in> set (dropWhile isWhiteSpace query). isWhiteSpace c"
    by (simp add: dropWhile_eq_Nil_conv)
  then have "dropWhile isWhiteSpace query = []"
    by (metis dropWhile_eq_Nil_conv dropWhile_idem)
  then show "list_all isWhiteSpace query"
    by (simp add: dropWhile_eq_Nil_conv list_all_iff)
qed (rule trim_whitespace)

text \<open>
  C10. For a query that is empty or holds only white space, \<open>searchProducts\<close> returns a
  promise fulfilled with the empty array whatever the state of the cache, and leaves the
  state as it is: no entry is added to the map, no promise is created and no request is
  made.
\<close>

theorem searchProducts_blank:
  assumes "list_all isWhiteSpace query"
  shows "searchProducts query lmt s = (Resolved [], s)"
  using assms by (simp add: searchProducts_def trim_whitespace)

theorem searchProducts_blank_witness:
  "list_all isWhiteSpace [CHR '' '', CHR 0x09, CHR 0x0A, CHR 0xA0]
   \<and> searchProducts [CHR '' '', CHR 0x09, CHR 0x0A, CHR 0xA0] 10
        (init :: (string, request, nat, string) cache)
       = (Resolved ([] :: nat list), init)
   \<and> searchProducts '''' 10 (init :: (string, request, nat, string) cache)
       = (Resolved ([] :: nat list), init)"
  using searchProducts_blank[of "[CHR '' '', CHR 0x09, CHR 0x0A, CHR 0xA0]" 10
          "init :: (string, request, nat, string) cache"]
    searchProducts_blank[of "''''" 10 "init :: (string, request, nat, string) cache"]
  by (simp add: isWhiteSpace_def)

lemma searchProducts_nonblank_example:
  "fst (searchProducts ''lap top'' 10 (init :: (string, request, nat, string) cache))
     = (Promise 0 :: nat list returned)
   \<and> invoked (snd (searchProducts ''lap top'' 10 (init :: (string, request, nat, string) cache)
                    :: nat list returned \<times> _))
     = [(''search-lap top-10'', GET ''/products/search?q=lap%20top&limit=10'')]"
  by (simp add: searchProducts_def key_eval cache_eval)

text \<open>
  C3, as stated, fails. The two filter objects hold the same key/value pairs, set in
  different orders, and \<open>getProducts\<close> derives different cache keys for them: the
  parameters are serialized in property order, nothing sorts them.
\<close>

theorem cacheKey_order_counterexample:
  "set sort_then_order = set order_then_sort
   \<and> getProducts_cacheKey sort_then_order 1 20
       = ''products-page=1&limit=20&sortBy=name&sortOrder=asc''
   \<and> getProducts_cacheKey order_then_sort 1 20
       = ''products-page=1&limit=20&sortOrder=asc&sortBy=name''
   \<and> getProducts_cacheKey sort_then_order 1 20 \<noteq> getProducts_cacheKey order_then_sort 1 20"
  by (auto simp add: key_eval sort_then_order_def order_then_sort_def)

lemma getProducts_acc_filter:
  "getProducts_acc filters
     = fold (\<lambda>kv acc. obj_set (fst kv) (toString (snd kv)) acc) (filter defined_entry filters) []"
proof -
  have "fold (\<lambda>kv acc. if snd kv \<noteq> JUndefined \<and> snd kv \<noteq> JNull
                     then obj_set (fst kv) (toString (snd kv)) acc else acc) fs acc0
      = fold (\<lambda>kv acc. obj_set (fst kv) (toString (snd kv)) acc) (filter defined_entry fs) acc0"
    for fs and acc0 :: "(string \<times> string) list"
    by (induction fs arbitrary: acc0) (simp_all add: defined_entry_def)
  then show ?thesis by (simp add: getProducts_acc_def)
qed


lemma hex_digit_not_amp: "i < 16 \<Longrightarrow> ''0123456789ABCDEF'' ! i \<noteq> CHR ''&''"
proof -
  assume "i < 16"
  then have "''0123456789ABCDEF'' ! i \<in> set ''0123456789ABCDEF''"
    by (intro nth_mem) simp
  then show ?thesis by auto
qed

lemma utf8_bytes: "b \<in> set (utf8 c) \<Longrightarrow> b < 256"
proof -
  have g: "b < 256"
    if "n < 256" "b \<in> set (if n < 128 then [n] else [192 + n div 64, 128 + n mod 64])"
    for n :: nat
    using that by (auto split: if_splits)
  show "b \<in> set (utf8 c) \<Longrightarrow> b < 256"
    using g[of "of_char c"] by (simp add: utf8_def Let_def)
qed

lemma percent_no_amp: "CHR ''&'' \<notin> set (percent c)"
proof
  assume "CHR ''&'' \<in> set (percent c)"
  then obtain b where b: "b \<in> set (utf8 c)" and "CHR ''&'' \<in> set (hex2 b)"
    by (auto simp: percent_def split: if_splits)
  moreover have "b div 16 < 16" "b mod 16 < 16" using utf8_bytes[OF b] by simp_all
  ultimately show False
    using hex_digit_not_amp[of "b div 16"] hex_digit_not_amp[of "b mod 16"]
    by (auto simp: hex2_def)
qed

lemma form_urlencode_no_amp: "CHR ''&'' \<notin> set (form_urlencode s)"
  using percent_no_amp
  by (auto simp: form_urlencode_def alphanumeric_def split: if_splits)


lemma amp_split:
  assumes "CHR ''&'' \<notin> set x" "CHR ''&'' \<notin> set y" "x @ CHR ''&'' # r = y @ CHR ''&'' # r'"
  shows "x = y \<and> r = r'"
  using assms
proof (induction x arbitrary: y)
  case Nil
  then show ?case by (cases y) auto
next
  case (Cons a x)
  then show ?case by (cases y) auto
qed

lemma join_cons: "join sep (x # xs) = (if xs = [] then x else x @ sep @ join sep xs)"
  by (cases xs) simp_all

lemma join_inj:
  assumes "\<forall>x \<in> set xs. CHR ''&'' \<notin> set x" "\<forall>y \<in> set ys. CHR ''&'' \<notin> set y"
    "xs \<noteq> []" "ys \<noteq> []" "join ''&'' xs = join ''&'' ys"
  shows "xs = ys"
  using assms
proof (induction xs arbitrary: ys)
  case Nil
  then show ?case by simp
next
  case (Cons x xs)
  then obtain y ys' where ys: "ys = y # ys'" by (cases ys) auto
  have x: "CHR ''&'' \<notin> set x" and y: "CHR ''&'' \<notin> set y"
    using Cons.prems(1,2) ys by simp_all
  show ?case
  proof (cases "xs = []")
    case True
    show ?thesis
    proof (cases "ys' = []")
      case True
      then show ?thesis using Cons.prems(5) ys \<open>xs = []\<close> by simp
    next
      case False
      then have "x = y @ CHR ''&'' # join ''&'' ys'"
        using Cons.prems(5) ys \<open>xs = []\<close> by (simp add: join_cons)
      then show ?thesis using x by simp
    qed
  next
    case False
    show ?thesis
    proof (cases "ys' = []")
      case True
      then have "y = x @ CHR ''&'' # join ''&'' xs"
        using Cons.prems(5) ys False by (simp add: join_cons)
      then show ?thesis using y by simp
    next
      case ne: False
      have eq: "x @ CHR ''&'' # join ''&'' xs = y @ CHR ''&'' # join ''&'' ys'"
        using Cons.prems(5) ys False ne by (simp add: join_cons)
      have "x = y \<and> join ''&'' xs = join ''&'' ys'"
        using x y eq by (rule amp_split)
      then show ?thesis using Cons.IH[of ys'] Cons.prems(1,2) ys False ne by simp
    qed
  qed
qed

lemma obj_set_new: "k \<notin> fst ` set ob \<Longrightarrow> obj_set k v ob = ob @ [(k, v)]"
  by (induction ob) auto

lemma fold_obj_set_append:
  assumes "distinct (map fst xs)" "fst ` set xs \<inter> fst ` set ob = {}"
  shows "fold (\<lambda>kv acc. obj_set (fst kv) (g (snd kv)) acc) xs ob
           = ob @ map (\<lambda>kv. (fst kv, g (snd kv))) xs"
  using assms
proof (induction xs arbitrary: ob)
  case Nil
  then show ?case by simp
next
  case (Cons x xs)
  have new: "fst x \<notin> fst ` set ob" using Cons.prems(2) by auto
  have d: "distinct (map fst xs)" using Cons.prems(1) by simp
  have "fst ` set xs \<inter> fst ` set (ob @ [(fst x, g (snd x))]) = {}"
    using Cons.prems by (auto simp: image_iff)
  from Cons.IH[OF d this] new show ?case by (simp add: obj_set_new)
qed

lemma getProducts_acc_kept:
  assumes "distinct (map fst filters)"
  shows "getProducts_acc filters
           = map (\<lambda>kv. (fst kv, toString (snd kv))) (filter defined_entry filters)"
proof -
  have "distinct (map fst (filter defined_entry filters))"
    using assms by (simp add: distinct_map_filter)
  then show ?thesis
    using fold_obj_set_append[of "filter defined_entry filters" "[]" toString]
    by (simp add: getProducts_acc_filter)
qed


lemma getProducts_cacheKey_closed:
  assumes "distinct (map fst filters)"
    and "''page'' \<notin> fst ` set filters" and "''limit'' \<notin> fst ` set filters"
  shows "getProducts_cacheKey filters pg lmt =
           ''products-'' @
           join ''&''
             ((''page='' @ form_urlencode (toString_nat pg))
              # (''limit='' @ form_urlencode (toString_nat lmt))
              # map encode_entry (filter defined_entry filters))"
proof -
  let ?kept = "map (\<lambda>kv. (fst kv, toString (snd kv))) (filter defined_entry filters)"
  have acc: "getProducts_acc filters = ?kept" using assms(1) by (rule getProducts_acc_kept)
  have d: "distinct (map fst ?kept)"
    using assms(1) by (simp add: comp_def distinct_map_filter)
  have disj: "fst ` set ?kept \<inter>
      fst ` set [(''page'', toString_nat pg), (''limit'', toString_nat lmt)] = {}"
    using assms(2,3) by (auto simp: image_iff)
  have "spread ?kept [(''page'', toString_nat pg), (''limit'', toString_nat lmt)]
      = [(''page'', toString_nat pg), (''limit'', toString_nat lmt)] @ ?kept"
    using fold_obj_set_append[OF d disj, of "\<lambda>v. v"] by (simp add: spread_def)
  then have "getProducts_params filters pg lmt
      = (''page'', toString_nat pg) # (''limit'', toString_nat lmt) # ?kept"
    by (simp add: getProducts_params_def acc)
  moreover have "form_urlencode ''page'' = ''page''" "form_urlencode ''limit'' = ''limit''"
    by (simp_all add: form_urlencode_def alphanumeric_def)
  moreover have "(\<lambda>x. form_urlencode (fst x) @ CHR ''='' # form_urlencode (toString (snd x)))
      = encode_entry"
    by (rule ext) (simp add: encode_entry_def)
  ultimately show ?thesis
    by (simp add: getProducts_cacheKey_def URLSearchParams_toString_def comp_def)
qed

lemma encode_entry_no_amp: "CHR ''&'' \<notin> set (encode_entry kv)"
  using form_urlencode_no_amp by (auto simp: encode_entry_def)

text \<open>
  C3, amended. For filter objects with the property names of \<open>ProductFilters\<close> (distinct,
  none of them \<open>page\<close> or \<open>limit\<close>), the key is \<open>products-\<close> followed by the pairs
  \<open>page\<close>, \<open>limit\<close> and then the properties that are neither \<open>undefined\<close> nor \<open>null\<close>, each
  URL-encoded as \<open>name=value\<close>, joined by \<open>&\<close> in the property order of the filter object.
  Two such objects yield the same key, for the same page and limit, exactly when their
  kept properties give the same sequence of encoded pairs; so objects whose kept
  properties are the same pairs in the same order yield the same key, and the same pairs
  in another order yield another key whenever the sequences of encoded pairs differ.
\<close>

theorem getProducts_cacheKey_format:
  assumes "distinct (map fst filters)"
    and "''page'' \<notin> fst ` set filters" and "''limit'' \<notin> fst ` set filters"
    and "distinct (map fst filters')"
    and "''page'' \<notin> fst ` set filters'" and "''limit'' \<notin> fst ` set filters'"
  shows "getProducts_cacheKey filters pg lmt =
           ''products-'' @
           join ''&''
             ((''page='' @ form_urlencode (toString_nat pg))
              # (''limit='' @ form_urlencode (toString_nat lmt))
              # map encode_entry (filter defined_entry filters))
       \<and> (getProducts_cacheKey filters pg lmt = getProducts_cacheKey filters' pg lmt
            \<longleftrightarrow> map encode_entry (filter defined_entry filters)
                 = map encode_entry (filter defined_entry filters'))
       \<and> (filter defined_entry filters = filter defined_entry filters' \<longrightarrow>
            getProducts_cacheKey filters pg lmt = getProducts_cacheKey filters' pg lmt)"
proof -
  let ?head = "[''page='' @ form_urlencode (toString_nat pg),
                ''limit='' @ form_urlencode (toString_nat lmt)]"
  let ?xs = "?head @ map encode_entry (filter defined_entry filters)"
  let ?ys = "?head @ map encode_entry (filter defined_entry filters')"
  have c: "getProducts_cacheKey filters pg lmt = ''products-'' @ join ''&'' ?xs"
    using getProducts_cacheKey_closed[OF assms(1,2,3)] by simp
  have c': "getProducts_cacheKey filters' pg lmt = ''products-'' @ join ''&'' ?ys"
    using getProducts_cacheKey_closed[OF assms(4,5,6)] by simp
  have amp: "\<forall>x \<in> set ?xs. CHR ''&'' \<notin> set x" "\<forall>y \<in> set ?ys. CHR ''&'' \<notin> set y"
    using form_urlencode_no_amp encode_entry_no_amp by auto
  have "getProducts_cacheKey filters pg lmt = getProducts_cacheKey filters' pg lmt
        \<longleftrightarrow> ?xs = ?ys"
  proof
    assume "getProducts_cacheKey filters pg lmt = getProducts_cacheKey filters' pg lmt"
    then have "join ''&'' ?xs = join ''&'' ?ys" using c c' by simp
    with amp show "?xs = ?ys" by (intro join_inj) simp_all
  next
    assume "?xs = ?ys"
    then show "getProducts_cacheKey filters pg lmt = getProducts_cacheKey filters' pg lmt"
      using c c' by simp
  qed
  then show ?thesis using c by auto
qed

theorem getProducts_cacheKey_format_witness:
  "distinct (map fst [(''search'', JUndefined), (''sortBy'', JString ''name''), (''minPrice'', JNumber 5)])
   \<and> ''page'' \<notin> fst ` set [(''search'', JUndefined), (''sortBy'', JString ''name''), (''minPrice'', JNumber 5)]
   \<and> ''limit'' \<notin> fst ` set [(''search'', JUndefined), (''sortBy'', JString ''name''), (''minPrice'', JNumber 5)]
   \<and> distinct (map fst [(''sortBy'', JString ''name''), (''category'', JNull), (''minPrice'', JNumber 5)])
   \<and> ''page'' \<notin> fst ` set [(''sortBy'', JString ''name''), (''category'', JNull), (''minPrice'', JNumber 5)]
   \<and> ''limit'' \<notin> fst ` set [(''sortBy'', JString ''name''), (''category'', JNull), (''minPrice'', JNumber 5)]
   \<and> filter defined_entry [(''search'', JUndefined), (''sortBy'', JString ''name''), (''minPrice'', JNumber 5)]
     = filter defined_entry [(''sortBy'', JString ''name''), (''category'', JNull), (''minPrice'', JNumber 5)]
   \<and> getProducts_cacheKey
        [(''search'', JUndefined), (''sortBy'', JString ''name''), (''minPrice'', JNumber 5)] 2 20
     = ''products-page=2&limit=20&sortBy=name&minPrice=5''
   \<and> getProducts_cacheKey
        [(''sortBy'', JString ''name''), (''category'', JNull), (''minPrice'', JNumber 5)] 2 20
     = ''products-page=2&limit=20&sortBy=name&minPrice=5''"
proof -
  let ?f = "[(''search'', JUndefined), (''sortBy'', JString ''name''), (''minPrice'', JNumber 5)]"
  let ?f' = "[(''sortBy'', JString ''name''), (''category'', JNull), (''minPrice'', JNumber 5)]"
  have h1: "distinct (map fst ?f)" by simp
  have h2: "''page'' \<notin> fst ` set ?f" by simp
  have h3: "''limit'' \<notin> fst ` set ?f" by simp
  have h4: "distinct (map fst ?f')" by simp
  have h5: "''page'' \<notin> fst ` set ?f'" by simp
  have h6: "''limit'' \<notin> fst ` set ?f'" by simp
  have h7: "filter defined_entry ?f = filter defined_entry ?f'" by (simp add: defined_entry_def)
  note t = getProducts_cacheKey_format[OF h1 h2 h3 h4 h5 h6, of 2 20]
  have k: "getProducts_cacheKey ?f 2 20 = ''products-page=2&limit=20&sortBy=name&minPrice=5''"
    using t[THEN conjunct1]
    by (simp add: defined_entry_def encode_entry_def form_urlencode_def alphanumeric_def
        digit_def toString_nat.simps toString_int_def)
  have "getProducts_cacheKey ?f 2 20 = getProducts_cacheKey ?f' 2 20"
    using t[THEN conjunct2, THEN conjunct2] h7 by simp
  with k h1 h2 h3 h4 h5 h6 h7 show ?thesis by simp
qed

section \<open>Debounced value: properties\<close>

lemmas debounce_eval = mount_def useDebounce_def setTimeout_def clearTimeout_def wait_def
  fire_def Let_def



text \<open>
  A render with an unchanged value does not run the effect again: were the value of time
  300 the same as that of time 100, the timeout armed at time 100 would fire at 400.
\<close>

lemma unchanged_value_keeps_timer:
  "emitted (inputs [Wait 50, Raw ''l'', Wait 50, Raw ''la'', Wait 200, Raw ''la'', Wait 1000]
                (mount 0 '''' 300))
       = [(400, ''la'')]"
  by (simp add: debounce_eval)

text \<open>
  In any state, a render with a changed value or delay, and unmounting, clear the timeout
  that the last effect armed.
\<close>

lemma useDebounce_cancels:
  assumes "(v, d) \<noteq> deps s" and "handler s = Some h" and "h < next_handle s"
  shows "list_all (\<lambda>tm. fst tm \<noteq> h) (timeouts (useDebounce v d s))"
  using assms
  by (auto simp: useDebounce_def setTimeout_def clearTimeout_def list_all_iff)

lemma unmount_cancels:
  assumes "handler s = Some h"
  shows "list_all (\<lambda>tm. fst tm \<noteq> h) (timeouts (unmount s))"
  using assms by (auto simp: unmount_def clearTimeout_def list_all_iff)

section \<open>Virtualized product list: rows\<close>

lemma ceil_nat_div: "0 < n \<Longrightarrow> \<lceil>real L / real n\<rceil> = int ((L + n - 1) div n)"
proof -
  assume n: "0 < n"
  define q where "q = (L + n - 1) div n"
  have up: "L \<le> q * n"
  proof -
    have "L + n - 1 < (q + 1) * n" unfolding q_def using n
      by (metis Suc_eq_plus1 dividend_less_times_div mult.commute mult_Suc)
    then show ?thesis using n by simp
  qed
  have lo: "q * n < L + n"
  proof -
    have "q * n \<le> L + n - 1" unfolding q_def by simp
    then show ?thesis using n by linarith
  qed
  have a: "real L / real n \<le> real q"
    using up n by (simp add: divide_le_eq flip: of_nat_mult)
  have b: "real q - 1 < real L / real n"
  proof -
    have "real (q * n) < real (L + n)" using lo by (simp only: of_nat_less_iff)
    then have "real q * real n - real n < real L" by simp
    then have "(real q - 1) * real n < real L" by (simp add: algebra_simps)
    then show ?thesis using n by (simp add: less_divide_eq)
  qed
  show ?thesis unfolding q_def[symmetric]
    by (rule ceiling_unique) (use a b in simp_all)
qed

lemma rowCount_div: "0 < n \<Longrightarrow> rowCount ps n = (length ps + n - 1) div n"
  by (simp add: rowCount_def ceil_nat_div)

lemma slice_nth: "b \<le> length xs \<Longrightarrow> slice a b xs = map ((!) xs) [a..<b]"
  by (rule nth_equalityI) (auto simp: slice_def)

lemma rowCount_bounds:
  assumes "0 < n"
  shows "length ps \<le> rowCount ps n * n" and "rowCount ps n * n < length ps + n"
proof -
  define q where "q = (length ps + n - 1) div n"
  have "length ps + n - 1 < (q + 1) * n" unfolding q_def using assms
    by (metis Suc_eq_plus1 dividend_less_times_div mult.commute mult_Suc)
  then have up: "length ps \<le> q * n" using assms by simp
  have "q * n \<le> length ps + n - 1" unfolding q_def by simp
  then have lo: "q * n < length ps + n" using assms by linarith
  show "length ps \<le> rowCount ps n * n" and "rowCount ps n * n < length ps + n"
    using up lo by (simp_all add: rowCount_div assms q_def)
qed

lemma rowCount_covers:
  assumes "0 < n"
  shows "i < rowCount ps n \<longleftrightarrow> i * n < length ps"
proof
  assume "i < rowCount ps n"
  then have "Suc i \<le> rowCount ps n" by simp
  then have "Suc i * n \<le> rowCount ps n * n" by (rule mult_le_mono1)
  with rowCount_bounds(2)[OF assms, of ps] show "i * n < length ps" by simp
next
  assume a: "i * n < length ps"
  show "i < rowCount ps n"
  proof (rule ccontr)
    assume "\<not> i < rowCount ps n"
    then have "rowCount ps n * n \<le> i * n" by (simp add: mult_le_mono1)
    with rowCount_bounds(1)[OF assms, of ps] a show False by simp
  qed
qed

text \<open>
  C8. For a loaded list of length \<open>L\<close> and \<open>itemsPerRow = n > 0\<close>: \<open>rowCount\<close> is the
  ceiling of \<open>L / n\<close> (the least number of rows of \<open>n\<close> cells that hold \<open>L\<close> items), the
  list has one more row exactly when \<open>hasNextPage\<close>, row \<open>i\<close> shows the products at the
  indices from \<open>i * n\<close> up to \<open>min ((i + 1) * n) L\<close>, and a row is a loading row exactly
  when its start index is at or past \<open>L\<close>, that is from row \<open>rowCount\<close> on.
\<close>

theorem virtualized_rows:
  assumes "0 < n"
  shows "(length ps \<le> rowCount ps n * n \<and> rowCount ps n * n < length ps + n)
    \<and> itemCount ps n hasNext = rowCount ps n + (if hasNext then 1 else 0)
    \<and> VirtualizedRow i ps n =
          (if length ps \<le> i * n then LoadingRow n
           else ProductRow (map ((!) ps) [i * n ..< min ((i + 1) * n) (length ps)])
                  (n - (min ((i + 1) * n) (length ps) - i * n)))
    \<and> (VirtualizedRow i ps n = LoadingRow n \<longleftrightarrow> rowCount ps n \<le> i)"
proof -
  have bounds: "length ps \<le> rowCount ps n * n \<and> rowCount ps n * n < length ps + n"
    using rowCount_bounds[OF assms, of ps] by simp
  have cnt: "itemCount ps n hasNext = rowCount ps n + (if hasNext then 1 else 0)"
    by (simp add: itemCount_def)
  have row: "VirtualizedRow i ps n =
          (if length ps \<le> i * n then LoadingRow n
           else ProductRow (map ((!) ps) [i * n ..< min ((i + 1) * n) (length ps)])
                  (n - (min ((i + 1) * n) (length ps) - i * n)))"
    by (simp add: VirtualizedRow_def Let_def slice_nth add.commute)
  have "VirtualizedRow i ps n = LoadingRow n \<longleftrightarrow> rowCount ps n \<le> i"
    using rowCount_covers[OF assms, of i ps] by (auto simp: row)
  with bounds cnt row show ?thesis by blast
qed

theorem virtualized_rows_witness:
  "(0::nat) < 2
   \<and> rowCount [10, 20, 30, 40, 50 :: nat] 2 = 3
   \<and> itemCount [10, 20, 30, 40, 50 :: nat] 2 True = 4
   \<and> VirtualizedRow 2 [10, 20, 30, 40, 50 :: nat] 2 = ProductRow [50] 1
   \<and> VirtualizedRow 3 [10, 20, 30, 40, 50 :: nat] 2 = LoadingRow 2"
  using virtualized_rows[where n=2 and ps="[10, 20, 30, 40, 50 :: nat]" and i=2 and hasNext=True]
    virtualized_rows[where n=2 and ps="[10, 20, 30, 40, 50 :: nat]" and i=3 and hasNext=True]
  by (simp add: upt_conv_Cons)

section \<open>Products page: properties\<close>

lemmas page_eval = mount_page_def fetchFirstPage_def fetchNextPage_def loadNextPage_def
  cancelFetch_def dropped_def
  setQuery_def resolve_def reject_def current_def isError_def query_data_def isLoading_def
  query_hasNextPage_def isFetchingNextPage_def products_def render_def getNextPageParam_def
  keepPreviousData_def Let_def

text \<open>
  C4, as stated, fails. The first page of the query sorted by name has arrived and the
  query changes to the sort by price: the first page of the new query is in flight, the
  new query has no data, and the page renders the product list with the two items fetched
  under the previous query. \<open>keepPreviousData: true\<close> keeps them "while loading new
  filters", as its comment says.
\<close>

theorem stale_items_counterexample:
  "finalFilters (page_run query_change_trace (mount_page ''name asc'')) = ''price asc''
   \<and> fetching (current (page_run query_change_trace (mount_page ''name asc''))) = Some Initial
   \<and> pages (current (page_run query_change_trace (mount_page ''name asc''))) = None
   \<and> products (page_run query_change_trace (mount_page ''name asc'')) = [101, 102]
   \<and> render (page_run query_change_trace (mount_page ''name asc''))
       = ProductList [101, 102] False False"
  by (simp add: query_change_trace_def first_page_def page_eval)

text \<open>
  C4, amended. When the query changes to one that has no data and no fetch in flight, and
  the page is not showing an error, the first page of the new query is requested and the
  items exposed to the renderer stay exactly those exposed before the change; the page
  shows the loading spinner only if nothing was exposed before. When the first page of the
  new query arrives, the exposed items are replaced by that page's items alone.
\<close>

theorem query_change_keeps_previous:
  assumes "f \<noteq> finalFilters s" and "pages (queries s f) = None"
    and "fetching (queries s f) = None" and "\<not> isError s"
  shows "products (setQuery f s) = products s
       \<and> fetching (current (setQuery f s)) = Some Initial
       \<and> requests (setQuery f s) = requests s @ [(f, 1)]
       \<and> (isLoading (setQuery f s) \<longleftrightarrow> query_data s = None)
       \<and> products (resolve f pg (setQuery f s)) = data pg
       \<and> previous (resolve f pg (setQuery f s)) = query_data s"
proof -
  have q: "queries (cancelFetch (finalFilters s) s) f = queries s f"
    using assms(1) by (simp add: cancelFetch_def split: option.splits)
  have ff: "finalFilters (cancelFetch (finalFilters s) s) = finalFilters s"
    "requests (cancelFetch (finalFilters s) s) = requests s"
    by (simp_all add: cancelFetch_def split: option.splits)
  show ?thesis
    using assms q ff
    by (simp add: setQuery_def fetchFirstPage_def resolve_def current_def isError_def
        query_data_def isLoading_def products_def keepPreviousData_def Let_def)
qed

theorem query_change_keeps_previous_witness:
  "''price asc'' \<noteq> finalFilters (page_run [Resolve ''name asc'' first_page] (mount_page ''name asc''))
   \<and> pages (queries (page_run [Resolve ''name asc'' first_page] (mount_page ''name asc'')) ''price asc'') = None
   \<and> fetching (queries (page_run [Resolve ''name asc'' first_page] (mount_page ''name asc'')) ''price asc'') = None
   \<and> \<not> isError (page_run [Resolve ''name asc'' first_page] (mount_page ''name asc''))
   \<and> products (setQuery ''price asc''
         (page_run [Resolve ''name asc'' first_page] (mount_page ''name asc''))) = [101, 102]
   \<and> products (resolve ''price asc''
         \<lparr>data = [7], total = 1, page = 1, limit = 20, hasNextPage = False, hasPreviousPage = False\<rparr>
         (setQuery ''price asc''
           (page_run [Resolve ''name asc'' first_page] (mount_page ''name asc'')))) = [7]"
proof -
  let ?s = "page_run [Resolve ''name asc'' first_page] (mount_page ''name asc'')"
  have h1: "''price asc'' \<noteq> finalFilters ?s" by (simp add: page_eval)
  have h2: "pages (queries ?s ''price asc'') = None" by (simp add: page_eval)
  have h3: "fetching (queries ?s ''price asc'') = None" by (simp add: page_eval)
  have h4: "\<not> isError ?s" by (simp add: page_eval)
  have p: "products ?s = [101, 102]" by (simp add: page_eval first_page_def)
  from query_change_keeps_previous[OF h1 h2 h3 h4,
      of "\<lparr>data = [7], total = 1, page = 1, limit = 20, hasNextPage = False, hasPreviousPage = False\<rparr>"]
    h1 h2 h3 h4 p
  show ?thesis by simp
qed






lemma page_inv_fetchFirstPage:
  assumes "page_inv s" "fetching (queries s f) = None" "pages (queries s f) = None"
  shows "page_inv (fetchFirstPage f s)"
  using assms
  by (auto simp: page_inv_def fetchFirstPage_def next_in_flight_def first_in_flight_def)















text \<open>
  In every state the page reaches, only the query of the current key has a fetch that it
  waits for: a page that arrives for a query that was left is dropped.
\<close>

lemma only_current_step:
  assumes "\<forall>f. f \<noteq> finalFilters s \<longrightarrow> fetching (queries s f) = None"
  shows "\<forall>f. f \<noteq> finalFilters (page_step e s) \<longrightarrow> fetching (queries (page_step e s) f) = None"
  using assms
  by (cases e)
     (auto simp: setQuery_def cancelFetch_def fetchFirstPage_def resolve_def reject_def
        loadNextPage_def fetchNextPage_def dropped_def current_def Let_def
        split: option.splits if_splits, metis+)

lemma only_current_fetches:
  "f \<noteq> finalFilters (page_run es (mount_page f0)) \<Longrightarrow>
     fetching (queries (page_run es (mount_page f0)) f) = None"
proof -
  have "\<forall>f. f \<noteq> finalFilters (page_run es s) \<longrightarrow> fetching (queries (page_run es s) f) = None"
    if "\<forall>f. f \<noteq> finalFilters s \<longrightarrow> fetching (queries s f) = None"
    for s :: "('a, 'b) products_page"
    using that
  proof (induction es arbitrary: s)
    case Nil
    then show ?case by simp
  next
    case (Cons e es)
    from Cons.IH[OF only_current_step[OF Cons.prems]] show ?case by simp
  qed
  moreover have "\<forall>f. f \<noteq> finalFilters (mount_page f0 :: ('a, 'b) products_page) \<longrightarrow>
      fetching (queries (mount_page f0 :: ('a, 'b) products_page) f) = None"
    by (simp add: mount_page_def fetchFirstPage_def)
  ultimately show "f \<noteq> finalFilters (page_run es (mount_page f0)) \<Longrightarrow>
     fetching (queries (page_run es (mount_page f0)) f) = None"
    by blast
qed

lemma left_query_drops_page:
  "f \<noteq> finalFilters (page_run es (mount_page f0)) \<Longrightarrow>
     resolve f pg (page_run es (mount_page f0)) = page_run es (mount_page f0)"
  by (simp add: resolve_def only_current_fetches)

end
